theory Spec2Isabelle
  imports Main "HOL-Library.Word"
begin

section \<open>The grid: \<open>player_position_t\<close>, \<open>clamp\<close>, \<open>update_player\<close>\<close>

text \<open>
  A C \<open>char\<close> is a byte, \<open>8 word\<close>. The program compares \<open>char\<close> values with \<open>-1\<close>
  and switches on them after the promotion to \<open>int\<close>; it is written for a target where
  plain \<open>char\<close> is signed (its marker for "no move" is \<open>-1\<close>, and \<open>old_move != -1\<close> could
  never be false with an unsigned \<open>char\<close>), so the promotion is \<open>sint\<close> and the conversion
  of an \<open>int\<close> to \<open>char\<close> is \<open>word_of_int\<close>.

  The coordinates are C \<open>int\<close>s. They are modelled as \<open>int\<close>: \<open>update_player\<close> adds or
  subtracts 1, which overflows only at \<open>INT_MAX\<close> or \<open>INT_MIN\<close> (undefined in C), far from
  any position the program reaches.
\<close>

type_synonym char_t = "8 word"

record player_position_t =
  x :: int
  y :: int

definition clamp :: "int \<Rightarrow> int \<Rightarrow> int \<Rightarrow> int" where
  "clamp v lo hi = (if v < lo then lo else if v > hi then hi else v)"

definition update_player :: "player_position_t \<Rightarrow> char_t \<Rightarrow> player_position_t" where
  "update_player player move =
     (if sint move = 1 then player\<lparr>y := clamp (y player - 1) 0 4\<rparr>
      else if sint move = 2 then player\<lparr>y := clamp (y player + 1) 0 4\<rparr>
      else if sint move = 3 then player\<lparr>x := clamp (x player + 1) 0 4\<rparr>
      else if sint move = 4 then player\<lparr>x := clamp (x player - 1) 0 4\<rparr>
      else player)"

text \<open>The 5x5 board of the comment at the head of \<open>main.c\<close>.\<close>

definition on_board :: "player_position_t \<Rightarrow> bool" where
  "on_board p = (0 \<le> x p \<and> x p \<le> 4 \<and> 0 \<le> y p \<and> y p \<le> 4)"

section \<open>The body of \<open>main\<close>: the three remembered moves\<close>

text \<open>
  The local variables of \<open>main\<close> that its two loops change. \<open>applied\<close> is a history
  variable, not a variable of the program: it records, in order, the argument of every
  call of \<open>update_player\<close>, that is, the effective moves.
\<close>

record main_state =
  player :: player_position_t
  prev_moves :: "int list"
  prev_idx :: nat
  applied :: "char_t list"

definition call_update_player :: "main_state \<Rightarrow> char_t \<Rightarrow> main_state" where
  "call_update_player s m =
     s\<lparr>player := update_player (player s) m, applied := applied s @ [m]\<rparr>"

text \<open>Lines 162 to 177: what one pass of \<open>while (1)\<close> does with the move it pulled.\<close>

definition main_loop_body :: "main_state \<Rightarrow> char_t \<Rightarrow> main_state" where
  "main_loop_body s move =
     (let old_move = (word_of_int (prev_moves s ! prev_idx s) :: char_t);
          s1 = (if sint old_move \<noteq> - 1 then call_update_player s old_move else s);
          pm = (prev_moves s1)[prev_idx s1 := sint move];
          three_in_a_row = (pm ! 0 = pm ! 1 \<and> pm ! 0 = pm ! 2);
          pm' = (if three_in_a_row then pm[0 := - 1, 1 := - 1, 2 := - 1] else pm)
      in s1\<lparr>prev_moves := pm', prev_idx := (prev_idx s1 + 1) mod 3\<rparr>)"

text \<open>Lines 185 to 191: \<open>for (int i = 0; i < 3; i++)\<close>.\<close>

definition flush_body :: "main_state \<Rightarrow> main_state" where
  "flush_body s =
     (let move = (word_of_int (prev_moves s ! prev_idx s) :: char_t);
          s1 = (if sint move \<noteq> - 1 then call_update_player s move else s)
      in s1\<lparr>prev_idx := (prev_idx s1 + 1) mod 3\<rparr>)"

function flush_loop :: "nat \<Rightarrow> main_state \<Rightarrow> main_state" where
  "flush_loop i s = (if i < 3 then flush_loop (i + 1) (flush_body s) else s)"
  by pat_completeness auto
termination
  by (relation "measure (\<lambda>(i, s). 3 - i)") auto

text \<open>The state \<open>main\<close> starts its loop in: the player at (0, 4), no move remembered.\<close>

definition main_init :: main_state where
  "main_init = \<lparr>player = \<lparr>x = 0, y = 4\<rparr>, prev_moves = [- 1, - 1, - 1], prev_idx = 0,
     applied = []\<rparr>"

text \<open>
  \<open>main\<close> on the moves the iterator yields one after the other: the \<open>while\<close> loop over
  them, then the \<open>for\<close> loop.
\<close>

definition run_moves :: "main_state \<Rightarrow> char_t list \<Rightarrow> main_state" where
  "run_moves s ms = flush_loop 0 (foldl main_loop_body s ms)"

definition effective_moves :: "char_t list \<Rightarrow> char_t list" where
  "effective_moves ms = applied (run_moves main_init ms)"

definition final_position :: "char_t list \<Rightarrow> player_position_t" where
  "final_position ms = player (run_moves main_init ms)"

section \<open>Properties of the grid\<close>

lemma clamp_max_min: "lo \<le> hi \<Longrightarrow> clamp v lo hi = max lo (min hi v)"
  by (simp add: clamp_def max_def min_def)

lemma clamp_board: "0 \<le> clamp v 0 4 \<and> clamp v 0 4 \<le> 4"
  by (simp add: clamp_def)

lemma sint_char_inj: "sint (m :: char_t) = sint (n :: char_t) \<longleftrightarrow> m = n"
  by (auto intro: signed_word_eqI)

lemma sint_char_1: "sint (m :: char_t) = 1 \<longleftrightarrow> m = 1"
  using sint_char_inj [of m 1] by simp

lemma sint_char_2: "sint (m :: char_t) = 2 \<longleftrightarrow> m = 2"
  using sint_char_inj [of m 2] by simp

lemma sint_char_3: "sint (m :: char_t) = 3 \<longleftrightarrow> m = 3"
  using sint_char_inj [of m 3] by simp

lemma sint_char_4: "sint (m :: char_t) = 4 \<longleftrightarrow> m = 4"
  using sint_char_inj [of m 4] by simp

lemma sint_char_m1: "sint (m :: char_t) = - 1 \<longleftrightarrow> m = 255"
  using sint_char_inj [of m 255] by simp

lemmas sint_char_simps = sint_char_1 sint_char_2 sint_char_3 sint_char_4

text \<open>
  C9. Applying a move: byte 1 (Up) sets \<open>y\<close> to \<open>y - 1\<close> clamped into \<open>[0, 4]\<close>, byte 2
  (Down) sets \<open>y\<close> to \<open>y + 1\<close> clamped, byte 3 (Right) sets \<open>x\<close> to \<open>x + 1\<close> clamped,
  byte 4 (Left) sets \<open>x\<close> to \<open>x - 1\<close> clamped, and every other byte leaves the position
  as it is. The clamp is written here as the specification has it, \<open>max 0 (min 4 v)\<close>,
  and the byte itself is compared, not its promotion to \<open>int\<close>.
\<close>

theorem update_player_cases:
  "update_player p m =
     (if m = 1 then p\<lparr>y := max 0 (min 4 (y p - 1))\<rparr>
      else if m = 2 then p\<lparr>y := max 0 (min 4 (y p + 1))\<rparr>
      else if m = 3 then p\<lparr>x := max 0 (min 4 (x p + 1))\<rparr>
      else if m = 4 then p\<lparr>x := max 0 (min 4 (x p - 1))\<rparr>
      else p)"
  by (simp add: update_player_def sint_char_simps clamp_max_min)

text \<open>
  C10. \<open>update_player\<close> changes at most one coordinate: bytes 1 and 2 leave \<open>x\<close> alone,
  bytes 3 and 4 leave \<open>y\<close> alone, and any other byte leaves the whole position alone.
\<close>

theorem update_player_frame:
  "(m = 1 \<or> m = 2 \<longrightarrow> x (update_player p m) = x p) \<and>
   (m = 3 \<or> m = 4 \<longrightarrow> y (update_player p m) = y p) \<and>
   (m \<notin> {1, 2, 3, 4} \<longrightarrow> update_player p m = p) \<and>
   (x (update_player p m) = x p \<or> y (update_player p m) = y p)"
  by (simp add: update_player_def sint_char_simps)

theorem update_player_frame_witness:
  "x (update_player \<lparr>x = 2, y = 2\<rparr> 1) = 2 \<and> x (update_player \<lparr>x = 2, y = 2\<rparr> 2) = 2 \<and>
   y (update_player \<lparr>x = 2, y = 2\<rparr> 3) = 2 \<and> y (update_player \<lparr>x = 2, y = 2\<rparr> 4) = 2 \<and>
   update_player \<lparr>x = 2, y = 2\<rparr> 9 = \<lparr>x = 2, y = 2\<rparr> \<and>
   y (update_player \<lparr>x = 2, y = 2\<rparr> 1) = 1 \<and> x (update_player \<lparr>x = 2, y = 2\<rparr> 3) = 3"
  using update_player_frame [of 1 "\<lparr>x = 2, y = 2\<rparr>"] update_player_frame [of 2 "\<lparr>x = 2, y = 2\<rparr>"]
    update_player_frame [of 3 "\<lparr>x = 2, y = 2\<rparr>"] update_player_frame [of 4 "\<lparr>x = 2, y = 2\<rparr>"]
    update_player_frame [of 9 "\<lparr>x = 2, y = 2\<rparr>"]
  by (simp add: update_player_def clamp_def)

lemma update_player_on_board: "on_board p \<Longrightarrow> on_board (update_player p m)"
  by (simp add: update_player_def on_board_def clamp_def)

lemma call_update_player_on_board:
  "on_board (player s) \<Longrightarrow> on_board (player (call_update_player s m))"
  by (simp add: call_update_player_def update_player_on_board)

lemma main_loop_body_on_board:
  "on_board (player s) \<Longrightarrow> on_board (player (main_loop_body s m))"
  by (simp add: main_loop_body_def Let_def call_update_player_on_board)

lemma flush_body_on_board:
  "on_board (player s) \<Longrightarrow> on_board (player (flush_body s))"
  by (simp add: flush_body_def Let_def call_update_player_on_board)

lemma flush_loop_on_board:
  "on_board (player s) \<Longrightarrow> on_board (player (flush_loop i s))"
  by (induction i s rule: flush_loop.induct) (simp add: flush_body_on_board)

lemma foldl_body_on_board:
  "on_board (player s) \<Longrightarrow> on_board (player (foldl main_loop_body s ms))"
  by (induction ms arbitrary: s) (simp_all add: main_loop_body_on_board)

lemma main_init_on_board: "on_board (player main_init)"
  by (simp add: main_init_def on_board_def)

text \<open>
  C5. The player never leaves the 5x5 board. A position is a pair of coordinates in
  \<open>[0, 4]\<close>; for every such position \<open>p\<close> and every byte \<open>m\<close>, \<open>update_player\<close> yields a
  position with both coordinates in \<open>[0, 4]\<close> again. \<open>main\<close> starts at (0, 4), so for all
  moves it is fed the position is on the board after every pass of the \<open>while\<close> loop and
  after the closing \<open>for\<close> loop. The coordinate that a recognised move assigns is in
  \<open>[0, 4]\<close> whatever the position was.
\<close>

theorem player_on_board:
  "(on_board p \<longrightarrow> on_board (update_player p m)) \<and>
   on_board (player (foldl main_loop_body main_init ms)) \<and>
   on_board (final_position ms) \<and>
   (m = 1 \<or> m = 2 \<longrightarrow> 0 \<le> y (update_player p m) \<and> y (update_player p m) \<le> 4) \<and>
   (m = 3 \<or> m = 4 \<longrightarrow> 0 \<le> x (update_player p m) \<and> x (update_player p m) \<le> 4)"
proof -
  have "on_board (player (foldl main_loop_body main_init ms))"
    by (rule foldl_body_on_board [OF main_init_on_board])
  moreover from this have "on_board (final_position ms)"
    unfolding final_position_def run_moves_def by (rule flush_loop_on_board)
  moreover have "m = 1 \<or> m = 2 \<longrightarrow> 0 \<le> y (update_player p m) \<and> y (update_player p m) \<le> 4"
    by (auto simp add: update_player_def clamp_def)
  moreover have "m = 3 \<or> m = 4 \<longrightarrow> 0 \<le> x (update_player p m) \<and> x (update_player p m) \<le> 4"
    by (auto simp add: update_player_def clamp_def)
  ultimately show ?thesis
    by (simp add: update_player_on_board)
qed

theorem player_on_board_witness:
  "on_board \<lparr>x = 0, y = 4\<rparr> \<and> on_board (update_player \<lparr>x = 0, y = 4\<rparr> 2) \<and>
   update_player \<lparr>x = 0, y = 4\<rparr> 2 = \<lparr>x = 0, y = 4\<rparr> \<and>
   on_board (update_player \<lparr>x = 0, y = 4\<rparr> 3) \<and>
   update_player \<lparr>x = 0, y = 4\<rparr> 3 = \<lparr>x = 1, y = 4\<rparr>"
  using player_on_board [of "\<lparr>x = 0, y = 4\<rparr>" 2 "[]"] player_on_board [of "\<lparr>x = 0, y = 4\<rparr>" 3 "[]"]
  by (simp add: on_board_def update_player_def clamp_def)

section \<open>The three remembered moves as a queue\<close>

text \<open>
  \<open>prev_moves\<close> is a ring of three slots and \<open>prev_idx\<close> points at the slot written
  longest ago. \<open>window3 s a b c\<close> reads the ring from \<open>prev_idx\<close> on: \<open>a\<close> is the byte in
  the slot at \<open>prev_idx\<close>, \<open>b\<close> and \<open>c\<close> the bytes in the two slots after it. A slot
  holds the promotion of a \<open>char\<close>, and the byte 255 (\<open>-1\<close> as a signed \<open>char\<close>) is the
  program's marker for "no move".
\<close>

definition window3 :: "main_state \<Rightarrow> char_t \<Rightarrow> char_t \<Rightarrow> char_t \<Rightarrow> bool" where
  "window3 s a b c =
     (prev_idx s = 0 \<and> prev_moves s = [sint a, sint b, sint c] \<or>
      prev_idx s = 1 \<and> prev_moves s = [sint c, sint a, sint b] \<or>
      prev_idx s = 2 \<and> prev_moves s = [sint b, sint c, sint a])"

text \<open>What a slot's content hands to \<open>update_player\<close> when the slot is given up.\<close>

definition emit :: "char_t \<Rightarrow> char_t list" where
  "emit a = (if a = 255 then [] else [a])"

text \<open>
  The specification's rule, in its own words and not taken from the code: going through
  the decoded moves in arrival order, a move followed by two more of the same code is
  discarded together with them, and the search starts afresh behind the three; any other
  move is applied.
\<close>

fun discard_triples :: "'a list \<Rightarrow> 'a list" where
  "discard_triples (a # b # c # ms) =
     (if a = b \<and> b = c then discard_triples ms else a # discard_triples (b # c # ms))"
| "discard_triples ms = ms"

text \<open>
  The specification's PendingWindow as a queue of at most three moves, oldest first: a
  new move pushes the oldest out once three are held, and three equal moves empty it.
\<close>

definition evicted :: "char_t list \<Rightarrow> char_t list" where
  "evicted pend = (if length pend = 3 then [hd pend] else [])"

definition pending_step :: "char_t list \<Rightarrow> char_t \<Rightarrow> char_t list" where
  "pending_step pend m =
     (let q = (if length pend = 3 then tl pend else pend) @ [m]
      in if q = [m, m, m] then [] else q)"

definition pending :: "char_t list \<Rightarrow> char_t list" where
  "pending ms = foldl pending_step [] ms"

text \<open>
  \<open>remembered s pend\<close>: the ring of \<open>s\<close>, read from \<open>prev_idx\<close> on, is the queue \<open>pend\<close>
  behind as many "no move" markers as it takes to fill three slots.
\<close>

inductive remembered :: "main_state \<Rightarrow> char_t list \<Rightarrow> bool" where
  r0: "window3 s 255 255 255 \<Longrightarrow> remembered s []"
| r1: "window3 s 255 255 p \<Longrightarrow> p \<noteq> 255 \<Longrightarrow> remembered s [p]"
| r2: "window3 s 255 p q \<Longrightarrow> p \<noteq> 255 \<Longrightarrow> q \<noteq> 255 \<Longrightarrow> remembered s [p, q]"
| r3: "window3 s p q r \<Longrightarrow> p \<noteq> 255 \<Longrightarrow> q \<noteq> 255 \<Longrightarrow> r \<noteq> 255 \<Longrightarrow> \<not> (p = q \<and> q = r)
        \<Longrightarrow> remembered s [p, q, r]"

lemma main_loop_body_window3:
  assumes "window3 s a b c"
  shows "window3 (main_loop_body s m) (if b = c \<and> c = m then 255 else b)
           (if b = c \<and> c = m then 255 else c) (if b = c \<and> c = m then 255 else m)"
    and "applied (main_loop_body s m) = applied s @ emit a"
    and "player (main_loop_body s m) = foldl update_player (player s) (emit a)"
  using assms
  by (auto simp add: window3_def main_loop_body_def Let_def call_update_player_def emit_def
      sint_char_inj sint_char_m1)

lemma flush_body_window3:
  assumes "window3 s a b c"
  shows "window3 (flush_body s) b c a"
    and "applied (flush_body s) = applied s @ emit a"
    and "player (flush_body s) = foldl update_player (player s) (emit a)"
    and "prev_moves (flush_body s) = prev_moves s"
  using assms
  by (auto simp add: window3_def flush_body_def Let_def call_update_player_def emit_def
      sint_char_inj sint_char_m1)

lemma flush_loop_0: "flush_loop 0 s = flush_body (flush_body (flush_body s))"
  by simp

lemma flush_loop_window3:
  assumes "window3 s a b c"
  shows "applied (flush_loop 0 s) = applied s @ emit a @ emit b @ emit c"
    and "player (flush_loop 0 s) = foldl update_player (player s) (emit a @ emit b @ emit c)"
    and "prev_moves (flush_loop 0 s) = prev_moves s"
    and "window3 (flush_loop 0 s) a b c"
proof -
  note w1 = flush_body_window3 [OF assms]
  note w2 = flush_body_window3 [OF w1(1)]
  note w3 = flush_body_window3 [OF w2(1)]
  show "applied (flush_loop 0 s) = applied s @ emit a @ emit b @ emit c"
    by (simp only: flush_loop_0 w1 w2 w3 append_assoc)
  show "player (flush_loop 0 s) = foldl update_player (player s) (emit a @ emit b @ emit c)"
    by (simp only: flush_loop_0 w1 w2 w3 foldl_append)
  show "prev_moves (flush_loop 0 s) = prev_moves s"
    by (simp only: flush_loop_0 w1 w2 w3)
  show "window3 (flush_loop 0 s) a b c"
    by (simp only: flush_loop_0 w3)
qed

lemma flush_remembered:
  assumes "remembered s pend"
  shows "applied (flush_loop 0 s) = applied s @ pend"
    and "player (flush_loop 0 s) = foldl update_player (player s) pend"
  using assms
  by (induction rule: remembered.induct) (simp_all only: flush_loop_window3, simp_all add: emit_def)

lemma main_loop_body_remembered:
  assumes "remembered s pend" and "m \<noteq> 255"
  shows "remembered (main_loop_body s m) (pending_step pend m) \<and>
         applied (main_loop_body s m) = applied s @ evicted pend \<and>
         player (main_loop_body s m) = foldl update_player (player s) (evicted pend) \<and>
         (\<forall>ms. discard_triples (pend @ m # ms) =
                evicted pend @ discard_triples (pending_step pend m @ ms))"
  using assms
proof (induction rule: remembered.induct)
  case (r0 s)
  note w = main_loop_body_window3 [OF r0(1), of m]
  from w(1) r0(2) have "remembered (main_loop_body s m) [m]"
    by (simp add: remembered.r1)
  with w(2,3) show ?case
    by (simp add: emit_def evicted_def pending_step_def)
next
  case (r1 s p)
  note w = main_loop_body_window3 [OF r1(1), of m]
  from w(1) r1(2,3) have "remembered (main_loop_body s m) [p, m]"
    by (simp add: remembered.r2)
  with w(2,3) show ?case
    by (simp add: emit_def evicted_def pending_step_def)
next
  case (r2 s p q)
  note w = main_loop_body_window3 [OF r2(1), of m]
  show ?case
  proof (cases "p = q \<and> q = m")
    case True
    with w(1) have "remembered (main_loop_body s m) []"
      by (simp add: remembered.r0)
    with w(2,3) True show ?thesis
      by (simp add: emit_def evicted_def pending_step_def)
  next
    case False
    with w(1) r2(2,3,4) have "remembered (main_loop_body s m) [p, q, m]"
      by (auto intro: remembered.r3)
    with w(2,3) False show ?thesis
      by (auto simp add: emit_def evicted_def pending_step_def)
  qed
next
  case (r3 s p q r)
  note w = main_loop_body_window3 [OF r3(1), of m]
  show ?case
  proof (cases "q = r \<and> r = m")
    case True
    with w(1) have "remembered (main_loop_body s m) []"
      by (simp add: remembered.r0)
    with w(2,3) True r3(2,5) show ?thesis
      by (simp add: emit_def evicted_def pending_step_def)
  next
    case False
    with w(1) r3(3,4,6) have "remembered (main_loop_body s m) [q, r, m]"
      by (auto intro: remembered.r3)
    with w(2,3) r3(2,5) False show ?thesis
      by (auto simp add: emit_def evicted_def pending_step_def)
  qed
qed

lemma remembered_discard: "remembered s pend \<Longrightarrow> discard_triples pend = pend"
  by (induction rule: remembered.induct) auto

lemma run_moves_remembered:
  assumes "remembered s pend" and "255 \<notin> set ms"
  shows "applied (run_moves s ms) = applied s @ discard_triples (pend @ ms) \<and>
         player (run_moves s ms) = foldl update_player (player s) (discard_triples (pend @ ms))"
  using assms
proof (induction ms arbitrary: s pend)
  case Nil
  then show ?case
    by (simp add: run_moves_def flush_remembered remembered_discard del: flush_loop.simps)
next
  case (Cons m ms)
  from Cons.prems have m: "m \<noteq> 255" and ms: "255 \<notin> set ms" by auto
  note b = main_loop_body_remembered [OF Cons.prems(1) m]
  have "run_moves s (m # ms) = run_moves (main_loop_body s m) ms"
    by (simp add: run_moves_def del: flush_loop.simps)
  with Cons.IH [OF conjunct1 [OF b] ms] b show ?case
    by simp
qed

lemma remembered_init: "remembered main_init []"
  by (simp add: remembered.r0 window3_def main_init_def)

lemma foldl_body_remembered:
  "255 \<notin> set ms \<Longrightarrow> remembered (foldl main_loop_body main_init ms) (pending ms)"
proof (induction ms rule: rev_induct)
  case Nil
  show ?case by (simp add: pending_def remembered_init)
next
  case (snoc m ms)
  then have "remembered (foldl main_loop_body main_init ms) (pending ms)" and "m \<noteq> 255"
    by auto
  from main_loop_body_remembered [OF this] show ?case
    by (simp add: pending_def)
qed

lemma effective_moves_discard:
  assumes "255 \<notin> set ms"
  shows "effective_moves ms = discard_triples ms"
    and "final_position ms = foldl update_player (player main_init) (discard_triples ms)"
proof -
  have "applied main_init = []"
    by (simp add: main_init_def)
  with run_moves_remembered [OF remembered_init assms]
  show "effective_moves ms = discard_triples ms"
    and "final_position ms = foldl update_player (player main_init) (discard_triples ms)"
    by (simp_all add: effective_moves_def final_position_def)
qed

section \<open>An end-to-end run\<close>

lemmas run_defs = effective_moves_def final_position_def run_moves_def main_init_def
  main_loop_body_def flush_body_def call_update_player_def update_player_def clamp_def Let_def

text \<open>
  C3. From the start position (0, 4) the decoded moves Right, Right, Up, Up, Up, Down
  (bytes 3, 3, 1, 1, 1, 2) give the effective moves Right, Right, Down and the final
  position (2, 4): the two Rights take \<open>x\<close> from 0 to 2, and the Down at \<open>y = 4\<close> is
  clamped at the bottom edge.
\<close>

theorem scenario:
  "player main_init = \<lparr>x = 0, y = 4\<rparr> \<and>
   effective_moves [3, 3, 1, 1, 1, 2] = [3, 3, 2] \<and>
   final_position [3, 3, 1, 1, 1, 2] = \<lparr>x = 2, y = 4\<rparr> \<and>
   foldl update_player \<lparr>x = 0, y = 4\<rparr> [3, 3] = \<lparr>x = 2, y = 4\<rparr> \<and>
   update_player \<lparr>x = 2, y = 4\<rparr> 2 = \<lparr>x = 2, y = 4\<rparr>"
  by (simp add: run_defs)

section \<open>The ring for every byte\<close>

text \<open>
  The calls of \<open>update_player\<close> that \<open>main\<close> still makes when its ring reads \<open>a\<close>, \<open>b\<close>,
  \<open>c\<close> from \<open>prev_idx\<close> on and the moves \<open>ms\<close> are still to come, as a function of the
  three bytes alone. \<open>run_moves_window3\<close> proves that this is what the program does, for
  every byte, 255 included.
\<close>

fun ring_run :: "char_t \<Rightarrow> char_t \<Rightarrow> char_t \<Rightarrow> char_t list \<Rightarrow> char_t list" where
  "ring_run a b c [] = emit a @ emit b @ emit c"
| "ring_run a b c (m # ms) =
     emit a @ (if b = c \<and> c = m then ring_run 255 255 255 ms else ring_run b c m ms)"

lemma run_moves_window3:
  assumes "window3 s a b c"
  shows "applied (run_moves s ms) = applied s @ ring_run a b c ms \<and>
         player (run_moves s ms) = foldl update_player (player s) (ring_run a b c ms)"
  using assms
proof (induction ms arbitrary: s a b c)
  case Nil
  then show ?case
    by (simp add: run_moves_def flush_loop_window3 del: flush_loop.simps)
next
  case (Cons m ms)
  note w = main_loop_body_window3 [OF Cons.prems, of m]
  have step: "run_moves s (m # ms) = run_moves (main_loop_body s m) ms"
    by (simp add: run_moves_def del: flush_loop.simps)
  show ?case
  proof (cases "b = c \<and> c = m")
    case True
    with w(1) have "window3 (main_loop_body s m) 255 255 255" by simp
    from Cons.IH [OF this] w(2,3) True show ?thesis
      by (simp add: step)
  next
    case False
    with w(1) have "window3 (main_loop_body s m) b c m" by auto
    from Cons.IH [OF this] w(2,3) False show ?thesis
      by (auto simp add: step)
  qed
qed

lemma window3_init: "window3 main_init 255 255 255"
  by (simp add: window3_def main_init_def)

lemma effective_moves_ring:
  "effective_moves ms = ring_run 255 255 255 ms"
  "final_position ms = foldl update_player \<lparr>x = 0, y = 4\<rparr> (ring_run 255 255 255 ms)"
  using run_moves_window3 [OF window3_init, of ms]
  by (simp_all add: effective_moves_def final_position_def main_init_def)

lemma main_loop_body_prev_moves:
  assumes "length (prev_moves s) = 3" and "prev_idx s < 3"
  shows "prev_moves (main_loop_body s b) =
     (if (prev_moves s)[prev_idx s := sint b] ! 0 = (prev_moves s)[prev_idx s := sint b] ! 1 \<and>
         (prev_moves s)[prev_idx s := sint b] ! 0 = (prev_moves s)[prev_idx s := sint b] ! 2
      then [- 1, - 1, - 1] else (prev_moves s)[prev_idx s := sint b])"
proof -
  from assms(1) obtain u v w where pm: "prev_moves s = [u, v, w]"
    by (cases "prev_moves s"; cases "tl (prev_moves s)"; cases "tl (tl (prev_moves s))") auto
  from assms(2) consider "prev_idx s = 0" | "prev_idx s = 1" | "prev_idx s = 2"
    by arith
  then show ?thesis
    by cases (auto simp add: pm main_loop_body_def Let_def call_update_player_def)
qed

lemma triple_of_any_byte:
  "prev_moves (foldl main_loop_body main_init [b, b, b]) = [- 1, - 1, - 1]"
proof -
  note w1 = main_loop_body_window3(1) [OF window3_init, of b]
  note w2 = main_loop_body_window3(1) [OF w1, of b]
  note w3 = main_loop_body_window3(1) [OF w2, of b]
  from w3 have "window3 (foldl main_loop_body main_init [b, b, b]) 255 255 255"
    by (simp split: if_splits)
  then show ?thesis
    by (auto simp add: window3_def)
qed

text \<open>
  The bytes of a sequence that are moves: 255 is the value of an empty slot, so \<open>main\<close>
  never hands it to \<open>update_player\<close>.
\<close>

definition moves_only :: "char_t list \<Rightarrow> char_t list" where
  "moves_only ms = filter (\<lambda>c. c \<noteq> 255) ms"

lemma discard_triples_other:
  "v \<noteq> u \<Longrightarrow> discard_triples (v # u # ms) = v # discard_triples (u # ms)"
  by (cases ms) simp_all

lemma discard_triples_pair:
  "v \<noteq> u \<Longrightarrow> discard_triples (v # v # u # ms) = v # v # discard_triples (u # ms)"
  by (simp add: discard_triples_other)

lemma moves_only_marker:
  "moves_only (discard_triples (255 # ms)) = moves_only (discard_triples ms) \<and>
   moves_only (discard_triples (255 # 255 # ms)) = moves_only (discard_triples ms)"
proof (induction ms rule: length_induct)
  case (1 ms)
  show ?case
  proof (cases ms)
    case Nil
    then show ?thesis by (simp add: moves_only_def)
  next
    case (Cons u us)
    show ?thesis
    proof (cases "u = 255")
      case False
      then show ?thesis
        by (simp add: Cons discard_triples_other discard_triples_pair moves_only_def)
    next
      case True
      from "1.IH" [rule_format, of us] Cons
      have ih: "moves_only (discard_triples (255 # us)) = moves_only (discard_triples us)"
        "moves_only (discard_triples (255 # 255 # us)) = moves_only (discard_triples us)"
        by simp_all
      from True Cons ih show ?thesis by simp
    qed
  qed
qed

lemma ring_run_clear:
  "b = c \<Longrightarrow> c = m \<Longrightarrow> ring_run a b c (m # ms) = emit a @ ring_run 255 255 255 ms"
  by simp

lemma ring_run_shift:
  "\<not> (b = c \<and> c = m) \<Longrightarrow> ring_run a b c (m # ms) = emit a @ ring_run b c m ms"
  by auto

lemma discard_triples_keep:
  "\<not> (a = b \<and> b = c) \<Longrightarrow> discard_triples (a # b # c # ms) = a # discard_triples (b # c # ms)"
  by auto

lemma discard_triples_drop: "discard_triples (a # a # a # ms) = discard_triples ms"
  by simp

lemma moves_only_Cons: "moves_only (a # ms) = emit a @ moves_only ms"
  by (simp add: moves_only_def emit_def)

lemma ring_run_discard:
  "(a = b \<and> b = c \<longrightarrow> a = 255) \<Longrightarrow>
   ring_run a b c ms = moves_only (discard_triples (a # b # c # ms))"
proof (induction ms arbitrary: a b c)
  case Nil
  show ?case
  proof (cases "a = b \<and> b = c")
    case True
    with Nil have "a = 255" "b = 255" "c = 255" by simp_all
    then show ?thesis by (simp add: emit_def moves_only_def)
  next
    case False
    then have "discard_triples [a, b, c] = [a, b, c]" by auto
    then show ?thesis
      by (simp only: ring_run.simps moves_only_Cons) (simp add: moves_only_def)
  qed
next
  case (Cons m ms)
  have init: "ring_run 255 255 255 ms = moves_only (discard_triples ms)"
    using Cons.IH [of 255 255 255] by (simp only: discard_triples_drop simp_thms)
  show ?case
  proof (cases "a = b \<and> b = c")
    case True
    with Cons.prems have abc: "a = 255" "b = 255" "c = 255" by simp_all
    show ?thesis
    proof (cases "m = 255")
      case True
      have "ring_run 255 255 255 (255 # ms) = moves_only (discard_triples ms)"
        by (simp only: ring_run_clear [OF refl refl] init) (simp add: emit_def)
      moreover have "moves_only (discard_triples (255 # 255 # 255 # 255 # ms)) =
          moves_only (discard_triples ms)"
        by (simp only: discard_triples_drop moves_only_marker)
      ultimately show ?thesis
        by (simp only: abc True)
    next
      case False
      then have n: "\<not> ((255 :: char_t) = 255 \<and> 255 = m)" by simp
      from False have "(255 :: char_t) = 255 \<and> 255 = m \<longrightarrow> (255 :: char_t) = 255" by simp
      from Cons.IH [OF this]
      have "ring_run 255 255 m ms = moves_only (discard_triples (255 # 255 # m # ms))" .
      also have "\<dots> = moves_only (discard_triples (m # ms))"
        by (simp only: discard_triples_pair [OF not_sym [OF False]] moves_only_Cons)
          (simp add: emit_def)
      finally have "ring_run 255 255 255 (m # ms) = moves_only (discard_triples (m # ms))"
        by (simp only: ring_run_shift [OF n]) (simp add: emit_def)
      moreover have "discard_triples (255 # 255 # 255 # m # ms) = discard_triples (m # ms)"
        by (rule discard_triples_drop)
      ultimately show ?thesis
        by (simp only: abc)
    qed
  next
    case False
    note keep = discard_triples_keep [OF False, of "m # ms"]
    show ?thesis
    proof (cases "b = c \<and> c = m")
      case True
      then have "ring_run a b c (m # ms) = emit a @ moves_only (discard_triples ms)"
        by (simp only: ring_run_clear init)
      moreover from True have "discard_triples (b # c # m # ms) = discard_triples ms"
        by simp
      ultimately show ?thesis
        by (simp only: keep moves_only_Cons)
    next
      case bcm: False
      then have "b = c \<and> c = m \<longrightarrow> b = 255" by blast
      from Cons.IH [OF this]
      have "ring_run b c m ms = moves_only (discard_triples (b # c # m # ms))" .
      then show ?thesis
        by (simp only: ring_run_shift [OF bcm] keep moves_only_Cons)
    qed
  qed
qed

lemma effective_moves_all:
  "effective_moves ms = moves_only (discard_triples ms)"
  using ring_run_discard [of 255 255 255 ms] by (simp add: effective_moves_ring)

lemma foldl_update_player_moves_only:
  "foldl update_player p (moves_only ms) = foldl update_player p ms"
  by (induction ms arbitrary: p) (simp_all add: moves_only_def update_player_def)

lemma final_position_all:
  "final_position ms = foldl update_player \<lparr>x = 0, y = 4\<rparr> (discard_triples ms)"
  using ring_run_discard [of 255 255 255 ms]
  by (simp add: effective_moves_ring foldl_update_player_moves_only)

section \<open>The triple-discard rule\<close>

lemma discard_triples_replicate_3:
  "discard_triples (replicate (n + 3) m) = discard_triples (replicate n m)"
  by (simp add: eval_nat_numeral)

lemma discard_triples_replicate: "discard_triples (replicate n m) = replicate (n mod 3) m"
proof (induction n rule: less_induct)
  case (less n)
  show ?case
  proof (cases "n < 3")
    case True
    then consider "n = 0" | "n = Suc 0" | "n = Suc (Suc 0)" by arith
    then show ?thesis
    proof cases
      case 1
      then show ?thesis by simp
    next
      case 2
      then show ?thesis by simp
    next
      case 3
      then show ?thesis by simp
    qed
  next
    case False
    define k where "k = n - 3"
    with False have n: "n = k + 3" and kn: "k < n" by simp_all
    have "discard_triples (replicate n m) = discard_triples (replicate k m)"
      unfolding n by (rule discard_triples_replicate_3)
    also have "\<dots> = replicate (k mod 3) m"
      by (rule less.IH [OF kn])
    also have "k mod 3 = n mod 3"
      unfolding n by simp
    finally show ?thesis .
  qed
qed

text \<open>
  C1 (amended). The triple-discard filter removes exactly the completed runs of three
  equal codes, found from the front and never overlapping, and consumes nothing behind
  them: for every sequence of decoded bytes the final position is the one reached by
  applying, in arrival order, the moves that \<open>discard_triples\<close> keeps, and the calls of
  \<open>update_player\<close> are exactly those moves without the bytes 255. For every move code
  other than the byte 255, a run of three equal moves yields no effective move, a run of
  four yields one, a run of five yields two, a run of six yields none, and a run of \<open>n\<close>
  yields \<open>n mod 3\<close>. The byte 255 is \<open>-1\<close> as a signed \<open>char\<close>, the value \<open>main\<close> keeps in a
  slot that holds no move: \<open>main\<close> cannot tell it from an empty slot and never applies it.
\<close>

theorem triple_discard:
  "final_position ms = foldl update_player \<lparr>x = 0, y = 4\<rparr> (discard_triples ms) \<and>
   effective_moves ms = filter (\<lambda>c. c \<noteq> 255) (discard_triples ms) \<and>
   (m \<noteq> 255 \<longrightarrow>
      effective_moves (replicate 3 m) = [] \<and>
      effective_moves (replicate 4 m) = [m] \<and>
      effective_moves (replicate 5 m) = [m, m] \<and>
      effective_moves (replicate 6 m) = [] \<and>
      effective_moves (replicate n m) = replicate (n mod 3) m)"
proof -
  have r: "effective_moves (replicate k m) = replicate (k mod 3) m" if "m \<noteq> 255" for k
    using that by (simp add: effective_moves_discard discard_triples_replicate)
  have m3: "(3 :: nat) mod 3 = 0" "(4 :: nat) mod 3 = 1" "(5 :: nat) mod 3 = 2"
    "(6 :: nat) mod 3 = 0"
    by simp_all
  have rep: "replicate 0 m = []" "replicate 1 m = [m]" "replicate 2 m = [m, m]"
    by (simp_all add: numeral_2_eq_2)
  have runs: "m \<noteq> 255 \<longrightarrow>
    effective_moves (replicate 3 m) = [] \<and>
    effective_moves (replicate 4 m) = [m] \<and>
    effective_moves (replicate 5 m) = [m, m] \<and>
    effective_moves (replicate 6 m) = [] \<and>
    effective_moves (replicate n m) = replicate (n mod 3) m"
  proof
    assume "m \<noteq> 255"
    note r [OF this]
    then show "effective_moves (replicate 3 m) = [] \<and>
      effective_moves (replicate 4 m) = [m] \<and>
      effective_moves (replicate 5 m) = [m, m] \<and>
      effective_moves (replicate 6 m) = [] \<and>
      effective_moves (replicate n m) = replicate (n mod 3) m"
      by (simp only: m3 rep simp_thms)
  qed
  have "effective_moves ms = filter (\<lambda>c. c \<noteq> 255) (discard_triples ms)"
    by (simp only: effective_moves_all moves_only_def)
  with final_position_all [of ms] runs show ?thesis
    by (simp only: simp_thms)
qed

theorem triple_discard_witness:
  "effective_moves [1, 1, 1, 1, 2, 2] = [1, 2, 2] \<and>
   final_position [1, 1, 1, 1, 2, 2] = \<lparr>x = 0, y = 4\<rparr> \<and>
   (1 :: char_t) \<noteq> 255 \<and>
   effective_moves (replicate 3 1) = [] \<and>
   effective_moves (replicate 4 1) = [1] \<and>
   effective_moves (replicate 5 1) = [1, 1] \<and>
   effective_moves (replicate 6 1) = [] \<and>
   effective_moves (replicate 7 1) = [1]"
proof -
  have h: "(1 :: char_t) \<noteq> 255" by simp
  have d: "discard_triples [1, 1, 1, 1, 2, 2 :: char_t] = [1, 2, 2]" by simp
  have f: "filter (\<lambda>c. c \<noteq> 255) [1, 2, 2 :: char_t] = [1, 2, 2]" by simp
  have p: "foldl update_player \<lparr>x = 0, y = 4\<rparr> [1, 2, 2] = \<lparr>x = 0, y = 4\<rparr>"
    by (simp add: update_player_def clamp_def)
  have e: "(7 :: nat) mod 3 = 1" by simp
  have r: "replicate 1 (1 :: char_t) = [1]" by simp
  from triple_discard [of "[1, 1, 1, 1, 2, 2]" 1 7] h show ?thesis
    by (simp only: d f p e r simp_thms)
qed

text \<open>
  The claim as the specification states it, for every input move sequence, fails on a
  run of four bytes 255: the first one is stored as \<open>-1\<close> in a ring that holds \<open>-1\<close> in
  every slot, the three slots compare equal and are reset, and so for each of the four;
  the closing loop finds no slot to apply. The run yields no effective move, not one.
\<close>

theorem run_of_four_markers:
  "effective_moves [255, 255, 255, 255] = [] \<and>
   length (effective_moves [255, 255, 255, 255]) \<noteq> 1 \<and>
   prev_moves (main_loop_body main_init 255) = [- 1, - 1, - 1] \<and>
   applied (foldl main_loop_body main_init [255, 255, 255, 255]) = [] \<and>
   final_position [255, 255, 255, 255] = \<lparr>x = 0, y = 4\<rparr>"
  by (simp add: run_defs)

text \<open>
  C2 (amended). Whenever storing the incoming move makes all three slots of \<open>prev_moves\<close>
  hold the same code other than \<open>-1\<close>, the three slots are reset to \<open>-1\<close>, so the window is
  left entirely empty. The move evicted in that pass, if the slot held one, stays applied
  to the grid: \<open>update_player\<close> has been called with it before the three slots are
  compared, and nothing undoes the call. (The evicted move is older than the three equal
  moves and is not one of them.)
\<close>

theorem completed_triple:
  assumes "length (prev_moves s) = 3" and "prev_idx s < 3"
    and "(prev_moves s)[prev_idx s := sint m] ! 0 = (prev_moves s)[prev_idx s := sint m] ! 1"
    and "(prev_moves s)[prev_idx s := sint m] ! 0 = (prev_moves s)[prev_idx s := sint m] ! 2"
    and "(prev_moves s)[prev_idx s := sint m] ! 0 \<noteq> - 1"
  shows "prev_moves (main_loop_body s m) = [- 1, - 1, - 1] \<and>
         applied (main_loop_body s m) =
           applied s @ emit (word_of_int (prev_moves s ! prev_idx s)) \<and>
         player (main_loop_body s m) =
           foldl update_player (player s) (emit (word_of_int (prev_moves s ! prev_idx s)))"
proof -
  from assms(1) obtain a b c where pm: "prev_moves s = [a, b, c]"
    by (cases "prev_moves s"; cases "tl (prev_moves s)"; cases "tl (tl (prev_moves s))") auto
  from assms(2) consider "prev_idx s = 0" | "prev_idx s = 1" | "prev_idx s = 2"
    by arith
  then show ?thesis
  proof cases
    case 1
    with assms(3,4) pm show ?thesis
      by (simp add: main_loop_body_def Let_def call_update_player_def emit_def sint_char_m1)
  next
    case 2
    with assms(3,4) pm show ?thesis
      by (simp add: main_loop_body_def Let_def call_update_player_def emit_def sint_char_m1)
  next
    case 3
    with assms(3,4) pm show ?thesis
      by (simp add: main_loop_body_def Let_def call_update_player_def emit_def sint_char_m1)
  qed
qed

theorem completed_triple_witness:
  "prev_moves (main_loop_body
      \<lparr>player = \<lparr>x = 0, y = 4\<rparr>, prev_moves = [3, 1, 1], prev_idx = 0, applied = []\<rparr> 1) =
     [- 1, - 1, - 1] \<and>
   applied (main_loop_body
      \<lparr>player = \<lparr>x = 0, y = 4\<rparr>, prev_moves = [3, 1, 1], prev_idx = 0, applied = []\<rparr> 1) = [3] \<and>
   player (main_loop_body
      \<lparr>player = \<lparr>x = 0, y = 4\<rparr>, prev_moves = [3, 1, 1], prev_idx = 0, applied = []\<rparr> 1) =
     \<lparr>x = 1, y = 4\<rparr>"
  using completed_triple [of
      "\<lparr>player = \<lparr>x = 0, y = 4\<rparr>, prev_moves = [3, 1, 1], prev_idx = 0, applied = []\<rparr>" 1]
  by (simp add: emit_def update_player_def clamp_def)

text \<open>
  The claim as the specification states it, that the evicted move is un-emitted, fails on
  the moves Right, Up, Up, Up: the third Up evicts the Right and completes the triple; the
  window is emptied, and the Right has moved the player from (0, 4) to (1, 4).
\<close>

theorem evicted_move_is_applied:
  "prev_moves (foldl main_loop_body main_init [3, 1, 1]) = [3, 1, 1] \<and>
   prev_idx (foldl main_loop_body main_init [3, 1, 1]) = 0 \<and>
   applied (foldl main_loop_body main_init [3, 1, 1]) = [] \<and>
   player (foldl main_loop_body main_init [3, 1, 1]) = \<lparr>x = 0, y = 4\<rparr> \<and>
   prev_moves (foldl main_loop_body main_init [3, 1, 1, 1]) = [- 1, - 1, - 1] \<and>
   applied (foldl main_loop_body main_init [3, 1, 1, 1]) = [3] \<and>
   player (foldl main_loop_body main_init [3, 1, 1, 1]) = \<lparr>x = 1, y = 4\<rparr> \<and>
   applied (foldl main_loop_body main_init [3, 1, 1, 1])
     \<noteq> applied (foldl main_loop_body main_init [3, 1, 1]) \<and>
   final_position [3, 1, 1, 1] = \<lparr>x = 1, y = 4\<rparr>"
  by (simp add: run_defs)

text \<open>
  C4. Every decoded byte goes into the ring as it is, whether or not it is one of the four
  directions: \<open>main\<close> stores its promotion to \<open>int\<close> in the slot at \<open>prev_idx\<close> (converting
  the slot back gives the byte), and the comparison of the three slots is made on what
  was stored. So three equal bytes that are no direction complete a triple (the ring is
  emptied and none of them reaches \<open>update_player\<close>), a byte that is no direction between
  equal directions breaks the run (after m, m, b, m nothing is discarded, where m, m, m
  alone is discarded whole), and \<open>update_player\<close> leaves the position as it is for such a
  byte. The byte 255 is stored as \<open>-1\<close>, the value of an empty slot, and is therefore never
  handed to \<open>update_player\<close>.
\<close>

theorem unrecognised_codes:
  "(length (prev_moves s) = 3 \<and> prev_idx s < 3 \<longrightarrow>
      (prev_moves s)[prev_idx s := sint b] ! prev_idx s = sint b \<and>
      word_of_int (sint b) = b \<and>
      prev_moves (main_loop_body s b) =
        (if (prev_moves s)[prev_idx s := sint b] ! 0 = (prev_moves s)[prev_idx s := sint b] ! 1 \<and>
            (prev_moves s)[prev_idx s := sint b] ! 0 = (prev_moves s)[prev_idx s := sint b] ! 2
         then [- 1, - 1, - 1] else (prev_moves s)[prev_idx s := sint b])) \<and>
   (b \<notin> {1, 2, 3, 4} \<longrightarrow>
      update_player p b = p \<and>
      effective_moves [b, b, b] = [] \<and>
      prev_moves (foldl main_loop_body main_init [b, b, b]) = [- 1, - 1, - 1]) \<and>
   (m \<in> {1, 2, 3, 4} \<and> b \<notin> {1, 2, 3, 4} \<longrightarrow>
      effective_moves [m, m, m] = [] \<and>
      effective_moves [m, m, b, m] = filter (\<lambda>c. c \<noteq> 255) [m, m, b, m] \<and>
      final_position [m, m, b, m] = foldl update_player \<lparr>x = 0, y = 4\<rparr> [m, m, m])"
proof -
  have 1: "length (prev_moves s) = 3 \<and> prev_idx s < 3 \<longrightarrow>
      (prev_moves s)[prev_idx s := sint b] ! prev_idx s = sint b \<and>
      word_of_int (sint b) = b \<and>
      prev_moves (main_loop_body s b) =
        (if (prev_moves s)[prev_idx s := sint b] ! 0 = (prev_moves s)[prev_idx s := sint b] ! 1 \<and>
            (prev_moves s)[prev_idx s := sint b] ! 0 = (prev_moves s)[prev_idx s := sint b] ! 2
         then [- 1, - 1, - 1] else (prev_moves s)[prev_idx s := sint b])"
    using main_loop_body_prev_moves [of s b] by simp
  have 2: "b \<notin> {1, 2, 3, 4} \<longrightarrow>
      update_player p b = p \<and>
      effective_moves [b, b, b] = [] \<and>
      prev_moves (foldl main_loop_body main_init [b, b, b]) = [- 1, - 1, - 1]"
  proof -
    have "b \<notin> {1, 2, 3, 4} \<longrightarrow> update_player p b = p"
      by (simp add: update_player_def sint_char_simps)
    moreover have "effective_moves [b, b, b] = []"
      by (simp add: effective_moves_ring emit_def)
    ultimately show ?thesis
      by (simp only: triple_of_any_byte simp_thms)
  qed
  have 3: "m \<in> {1, 2, 3, 4} \<and> b \<notin> {1, 2, 3, 4} \<longrightarrow>
      effective_moves [m, m, m] = [] \<and>
      effective_moves [m, m, b, m] = filter (\<lambda>c. c \<noteq> 255) [m, m, b, m] \<and>
      final_position [m, m, b, m] = foldl update_player \<lparr>x = 0, y = 4\<rparr> [m, m, m]"
    by (auto simp add: effective_moves_ring emit_def update_player_def sint_char_simps)
  from 1 2 3 show ?thesis by (simp only: simp_thms)
qed

theorem unrecognised_codes_witness:
  "prev_moves (main_loop_body main_init 9) = [9, - 1, - 1] \<and>
   update_player \<lparr>x = 2, y = 2\<rparr> 9 = \<lparr>x = 2, y = 2\<rparr> \<and>
   effective_moves [9, 9, 9] = [] \<and>
   effective_moves [1, 1, 1] = [] \<and>
   effective_moves [1, 1, 9, 1] = [1, 1, 9, 1] \<and>
   final_position [1, 1, 9, 1] = \<lparr>x = 0, y = 1\<rparr>"
proof -
  have p: "foldl update_player \<lparr>x = 0, y = 4\<rparr> [1, 1, 1] = \<lparr>x = 0, y = 1\<rparr>"
    by (simp add: update_player_def clamp_def)
  have i: "length (prev_moves main_init) = 3 \<and> prev_idx main_init < 3"
    "(prev_moves main_init)[prev_idx main_init := sint (9 :: char_t)] = [9, - 1, - 1]"
    by (simp_all add: main_init_def)
  from unrecognised_codes [of main_init 9 "\<lparr>x = 2, y = 2\<rparr>" 1] i p show ?thesis
    by simp
qed

section \<open>The closing \<open>for\<close> loop\<close>

text \<open>What the slot \<open>k\<close> of the ring hands to \<open>update_player\<close> when the \<open>for\<close> loop visits it.\<close>

definition slot :: "main_state \<Rightarrow> nat \<Rightarrow> char_t list" where
  "slot s k = filter (\<lambda>c. c \<noteq> 255) [word_of_int (prev_moves s ! k)]"

lemma flush_body_slot:
  "applied (flush_body s) = applied s @ slot s (prev_idx s)"
  "player (flush_body s) = foldl update_player (player s) (slot s (prev_idx s))"
  "prev_moves (flush_body s) = prev_moves s"
  "prev_idx (flush_body s) = (prev_idx s + 1) mod 3"
  by (simp_all add: flush_body_def Let_def call_update_player_def slot_def sint_char_m1)

lemma slot_flush_body: "slot (flush_body s) k = slot s k"
  by (simp add: slot_def flush_body_slot)

text \<open>
  C8. At the end of the input the \<open>for\<close> loop makes exactly three passes, starting at
  \<open>prev_idx\<close> and moving on by one slot (modulo 3) each time; each pass calls
  \<open>update_player\<close> with the slot's content unless the slot is empty. No slot is written
  and the slots are not compared, so no triple is detected and nothing is inserted. The
  slot at \<open>prev_idx\<close> is the one written longest ago: after any moves, what the loop
  applies is the queue \<open>pending\<close> of the moves still remembered, oldest first.
\<close>

theorem flush_window:
  "flush_loop 0 s = flush_body (flush_body (flush_body s)) \<and>
   prev_moves (flush_loop 0 s) = prev_moves s \<and>
   applied (flush_loop 0 s) =
     applied s @ slot s (prev_idx s) @ slot s ((prev_idx s + 1) mod 3)
       @ slot s ((prev_idx s + 2) mod 3) \<and>
   player (flush_loop 0 s) =
     foldl update_player (player s)
       (slot s (prev_idx s) @ slot s ((prev_idx s + 1) mod 3) @ slot s ((prev_idx s + 2) mod 3)) \<and>
   (255 \<notin> set ms \<longrightarrow>
      effective_moves ms = applied (foldl main_loop_body main_init ms) @ pending ms)"
proof -
  have i2: "((prev_idx s + 1) mod 3 + 1) mod 3 = (prev_idx s + 2) mod 3"
    by presburger
  have "255 \<notin> set ms \<longrightarrow>
      effective_moves ms = applied (foldl main_loop_body main_init ms) @ pending ms"
    unfolding effective_moves_def run_moves_def
    by (intro impI flush_remembered(1) foldl_body_remembered)
  then show ?thesis
    by (simp only: flush_loop_0 flush_body_slot slot_flush_body i2 append_assoc foldl_append
        simp_thms)
qed

theorem flush_window_witness:
  "(255 :: char_t) \<notin> set [1, 2, 2, 2, 3, 4] \<and>
   pending [1, 2, 2, 2, 3, 4] = [3, 4] \<and>
   applied (foldl main_loop_body main_init [1, 2, 2, 2, 3, 4]) = [1] \<and>
   effective_moves [1, 2, 2, 2, 3, 4] = [1, 3, 4]"
proof -
  have h: "(255 :: char_t) \<notin> set [1, 2, 2, 2, 3, 4]" by simp
  have p: "pending [1, 2, 2, 2, 3, 4] = [3, 4]"
    by (simp add: pending_def pending_step_def)
  have a: "applied (foldl main_loop_body main_init [1, 2, 2, 2, 3, 4]) = [1]"
    by (simp add: run_defs)
  from flush_window [of main_init "[1, 2, 2, 2, 3, 4]"] h p a show ?thesis
    by simp
qed

section \<open>The frame scanner: \<open>move_iterator_t\<close>, \<open>next_move\<close> and \<open>main\<close>\<close>

text \<open>
  \<open>yahdlc.h\<close> and the yahdlc library are not part of the sources: the decoder
  \<open>yahdlc_get_data\<close> and the macro \<open>YAHDLC_FLAG_SEQUENCE\<close> are parameters of the model
  (the record \<open>yahdlc\<close>). The decoder keeps a state of its own between calls (\<open>'d\<close>); it
  is given the control structure, the bytes from \<open>data + start\<close> to \<open>data + end\<close>, and
  the output buffer with its length, and it returns an \<open>int\<close> together with what it left
  in the control structure, in the output buffer and in the length. Of the control
  structure \<open>next_move\<close> reads the field \<open>frame\<close> only.

  \<open>end\<close> and \<open>output\<close> are reserved words, so the fields \<open>end\<close> and \<open>output\<close> of
  \<open>move_iterator_t\<close> are called \<open>end_pos\<close> and \<open>output_buf\<close>. \<open>start\<close> and \<open>end\<close> are
  \<open>int\<close>s that only grow from 0 and 1 and are compared with the unsigned \<open>data_len\<close>;
  they are modelled as \<open>nat\<close>. The output buffer is a map from offsets to bytes.
\<close>

record yahdlc_control_t =
  frame :: int

record move_iterator_t =
  start :: nat
  end_pos :: nat
  data :: "char_t list"
  data_len :: nat
  output_buf :: "nat \<Rightarrow> char_t"
  output_len :: nat

record 'd get_data_result =
  ret :: int
  control_out :: yahdlc_control_t
  dest :: "nat \<Rightarrow> char_t"
  dest_len :: nat
  state_out :: 'd

record 'd yahdlc =
  FLAG_SEQUENCE :: int
  get_data :: "'d \<Rightarrow> yahdlc_control_t \<Rightarrow> char_t list \<Rightarrow> (nat \<Rightarrow> char_t) \<Rightarrow> nat
    \<Rightarrow> 'd get_data_result"

text \<open>
  What \<open>next_move\<close> threads besides the iterator: the decoder's own state, and two history
  variables that are not variables of the program. \<open>returned\<close> lists the values the calls
  of \<open>yahdlc_get_data\<close> have returned so far, \<open>examined\<close> the indices of the bytes that
  have been compared with \<open>YAHDLC_FLAG_SEQUENCE\<close> so far.
\<close>

record 'd world =
  yahdlc_state :: 'd
  returned :: "int list"
  examined :: "nat list"

definition yahdlc_get_data ::
  "'d yahdlc \<Rightarrow> 'd world \<Rightarrow> yahdlc_control_t \<Rightarrow> char_t list \<Rightarrow> (nat \<Rightarrow> char_t) \<Rightarrow> nat
    \<Rightarrow> 'd get_data_result \<times> 'd world" where
  "yahdlc_get_data lib w control src dst len =
     (let r = get_data lib (yahdlc_state w) control src dst len
      in (r, w\<lparr>yahdlc_state := state_out r, returned := returned w @ [ret r]\<rparr>))"

definition examine :: "'d world \<Rightarrow> move_iterator_t \<Rightarrow> 'd world" where
  "examine w iter = w\<lparr>examined := examined w @ [end_pos iter]\<rparr>"

definition frame_span :: "move_iterator_t \<Rightarrow> char_t list" where
  "frame_span iter = take (end_pos iter + 1 - start iter) (drop (start iter) (data iter))"

definition advance :: "move_iterator_t \<Rightarrow> 'd get_data_result \<Rightarrow> move_iterator_t" where
  "advance iter r = iter\<lparr>output_buf := dest r, output_len := dest_len r,
     start := end_pos iter + 1, end_pos := end_pos iter + 2\<rparr>"

text \<open>
  \<open>next_move\<close>: \<open>Inl (ret, w)\<close> is \<open>printf("yahdlc error %i", ret); exit(1)\<close>; \<open>Inr\<close> carries
  the value returned (1 with a move in \<open>output\<close>, 0 when the data is used up) and what the
  call left behind.
\<close>

function next_move ::
  "'d yahdlc \<Rightarrow> 'd world \<Rightarrow> yahdlc_control_t \<Rightarrow> move_iterator_t
    \<Rightarrow> (int \<times> 'd world) + (int \<times> 'd world \<times> yahdlc_control_t \<times> move_iterator_t)"
  where
  "next_move lib w control iter =
     (if end_pos iter < data_len iter then
        (if sint (data iter ! end_pos iter) = FLAG_SEQUENCE lib then
           (case yahdlc_get_data lib (examine w iter) control (frame_span iter)
                   (output_buf iter) (output_len iter) of
              (r, w') \<Rightarrow>
                if ret r < 0 then Inl (ret r, w')
                else if frame (control_out r) \<noteq> 0
                  then next_move lib w' (control_out r) (advance iter r)
                  else Inr (1, w', control_out r, advance iter r))
         else next_move lib (examine w iter) control (iter\<lparr>end_pos := end_pos iter + 1\<rparr>))
      else Inr (0, w, control, iter))"
  by pat_completeness auto
termination
  by (relation "measure (\<lambda>(lib, w, control, iter). data_len iter - end_pos iter)")
    (auto simp add: advance_def)

declare next_move.simps [simp del]

lemma next_move_end:
  "\<not> end_pos iter < data_len iter \<Longrightarrow> next_move lib w control iter = Inr (0, w, control, iter)"
  by (subst next_move.simps) simp

lemma next_move_skip:
  "end_pos iter < data_len iter \<Longrightarrow> sint (data iter ! end_pos iter) \<noteq> FLAG_SEQUENCE lib \<Longrightarrow>
   next_move lib w control iter =
     next_move lib (examine w iter) control (iter\<lparr>end_pos := end_pos iter + 1\<rparr>)"
  by (subst next_move.simps) simp

lemma next_move_error:
  "end_pos iter < data_len iter \<Longrightarrow> sint (data iter ! end_pos iter) = FLAG_SEQUENCE lib \<Longrightarrow>
   yahdlc_get_data lib (examine w iter) control (frame_span iter) (output_buf iter)
     (output_len iter) = (r, w') \<Longrightarrow>
   ret r < 0 \<Longrightarrow> next_move lib w control iter = Inl (ret r, w')"
  by (subst next_move.simps) simp

lemma next_move_control:
  "end_pos iter < data_len iter \<Longrightarrow> sint (data iter ! end_pos iter) = FLAG_SEQUENCE lib \<Longrightarrow>
   yahdlc_get_data lib (examine w iter) control (frame_span iter) (output_buf iter)
     (output_len iter) = (r, w') \<Longrightarrow>
   \<not> ret r < 0 \<Longrightarrow> frame (control_out r) \<noteq> 0 \<Longrightarrow>
   next_move lib w control iter = next_move lib w' (control_out r) (advance iter r)"
  by (subst next_move.simps) simp

lemma next_move_data:
  "end_pos iter < data_len iter \<Longrightarrow> sint (data iter ! end_pos iter) = FLAG_SEQUENCE lib \<Longrightarrow>
   yahdlc_get_data lib (examine w iter) control (frame_span iter) (output_buf iter)
     (output_len iter) = (r, w') \<Longrightarrow>
   \<not> ret r < 0 \<Longrightarrow> frame (control_out r) = 0 \<Longrightarrow>
   next_move lib w control iter = Inr (1, w', control_out r, advance iter r)"
  by (subst next_move.simps) simp

text \<open>A case analysis of one pass of the loop of \<open>next_move\<close>, for the proofs below.\<close>

lemma next_move_cases [case_names stop skip error control data]:
  assumes "\<not> end_pos iter < data_len iter \<Longrightarrow> P"
    and "end_pos iter < data_len iter \<Longrightarrow> sint (data iter ! end_pos iter) \<noteq> FLAG_SEQUENCE lib \<Longrightarrow> P"
    and "\<And>r w'. end_pos iter < data_len iter \<Longrightarrow>
           sint (data iter ! end_pos iter) = FLAG_SEQUENCE lib \<Longrightarrow>
           yahdlc_get_data lib (examine w iter) control (frame_span iter) (output_buf iter)
             (output_len iter) = (r, w') \<Longrightarrow> ret r < 0 \<Longrightarrow> P"
    and "\<And>r w'. end_pos iter < data_len iter \<Longrightarrow>
           sint (data iter ! end_pos iter) = FLAG_SEQUENCE lib \<Longrightarrow>
           yahdlc_get_data lib (examine w iter) control (frame_span iter) (output_buf iter)
             (output_len iter) = (r, w') \<Longrightarrow> \<not> ret r < 0 \<Longrightarrow> frame (control_out r) \<noteq> 0 \<Longrightarrow> P"
    and "\<And>r w'. end_pos iter < data_len iter \<Longrightarrow>
           sint (data iter ! end_pos iter) = FLAG_SEQUENCE lib \<Longrightarrow>
           yahdlc_get_data lib (examine w iter) control (frame_span iter) (output_buf iter)
             (output_len iter) = (r, w') \<Longrightarrow> \<not> ret r < 0 \<Longrightarrow> frame (control_out r) = 0 \<Longrightarrow> P"
  shows P
proof -
  obtain r w' where "yahdlc_get_data lib (examine w iter) control (frame_span iter)
      (output_buf iter) (output_len iter) = (r, w')"
    by (cases "yahdlc_get_data lib (examine w iter) control (frame_span iter)
      (output_buf iter) (output_len iter)")
  with assms show P by blast
qed

lemma next_move_progress:
  "next_move lib w control iter = Inr (run, w', control', iter') \<Longrightarrow>
   data_len iter' = data_len iter \<and> data iter' = data iter \<and> end_pos iter \<le> end_pos iter' \<and>
   (run \<noteq> 0 \<longrightarrow> end_pos iter < data_len iter \<and> end_pos iter < end_pos iter')"
proof (induction lib w control iter rule: next_move.induct)
  case (1 lib w control iter)
  show ?case
  proof (cases rule: next_move_cases [where iter = iter and lib = lib and w = w
      and control = control])
    case stop
    with "1.prems" show ?thesis by (simp add: next_move_end)
  next
    case skip
    with "1.prems"
    have "next_move lib (examine w iter) control (iter\<lparr>end_pos := end_pos iter + 1\<rparr>) =
        Inr (run, w', control', iter')"
      by (simp add: next_move_skip)
    from "1.IH"(2) [OF skip this] skip(1) show ?thesis by simp
  next
    case (error r v)
    with "1.prems" show ?thesis by (simp add: next_move_error)
  next
    case (control r v)
    with "1.prems"
    have "next_move lib v (control_out r) (advance iter r) = Inr (run, w', control', iter')"
      by (simp add: next_move_control)
    from "1.IH"(1) [OF control(1,2) control(3) [symmetric] control(4,5) this] control(1)
    show ?thesis by (simp add: advance_def)
  next
    case (data r v)
    with "1.prems" show ?thesis by (auto simp add: next_move_data advance_def)
  qed
qed

text \<open>
  The \<open>while (1)\<close> loop of \<open>main\<close> (lines 155 to 182): pull a move, leave the loop when
  there is none, else run the body on \<open>iter.output[0]\<close> and reset \<open>iter.output_len\<close>.
\<close>

function main_loop ::
  "'d yahdlc \<Rightarrow> 'd world \<Rightarrow> yahdlc_control_t \<Rightarrow> move_iterator_t \<Rightarrow> main_state
    \<Rightarrow> (int \<times> 'd world) + (main_state \<times> 'd world)" where
  "main_loop lib w control iter s =
     (case next_move lib w control iter of
        Inl e \<Rightarrow> Inl e
      | Inr (run, w', control', iter') \<Rightarrow>
          if run = 0 then Inr (s, w')
          else main_loop lib w' control' (iter'\<lparr>output_len := 0\<rparr>)
                 (main_loop_body s (output_buf iter' 0)))"
  by pat_completeness auto
termination
proof (relation "measure (\<lambda>(lib, w, control, iter, s). data_len iter - end_pos iter)")
  show "wf (measure (\<lambda>(lib :: 'd yahdlc, w :: 'd world, control :: yahdlc_control_t,
    iter, s :: main_state). data_len iter - end_pos iter))"
    by simp
next
  fix lib :: "'d yahdlc" and w :: "'d world" and control iter and s :: main_state
    and x2 :: "int \<times> 'd world \<times> yahdlc_control_t \<times> move_iterator_t"
    and run y w' ya control' iter'
  assume "next_move lib w control iter = Inr x2" "(run, y) = x2" "(w', ya) = y"
    "(control', iter') = ya" "run \<noteq> 0"
  then have "next_move lib w control iter = Inr (run, w', control', iter')" by auto
  from next_move_progress [OF this] \<open>run \<noteq> 0\<close>
  show "((lib, w', control', iter'\<lparr>output_len := 0\<rparr>, main_loop_body s (output_buf iter' 0)),
         lib, w, control, iter, s)
        \<in> measure (\<lambda>(lib, w, control, iter, s). data_len iter - end_pos iter)"
    by (simp add: diff_less_mono2)
qed

declare main_loop.simps [simp del]

text \<open>
  What the process leaves behind: the lines printed and the exit status (with the two
  histories). \<open>main\<close> is taken from the point where the file has been read into \<open>buffer\<close>;
  the contents of \<open>control\<close> and of the output buffer are whatever they are at that point
  and are parameters. After the loop come the \<open>for\<close> loop and the report of the position.
\<close>

datatype printed = Yahdlc_error int | Player_position int int

record process_result =
  stdout :: "printed list"
  exit_status :: int
  get_data_returns :: "int list"
  examined_indices :: "nat list"

definition main ::
  "'d yahdlc \<Rightarrow> 'd \<Rightarrow> yahdlc_control_t \<Rightarrow> (nat \<Rightarrow> char_t) \<Rightarrow> char_t list \<Rightarrow> process_result" where
  "main lib d0 control0 output_buffer buffer =
     (case main_loop lib \<lparr>yahdlc_state = d0, returned = [], examined = []\<rparr> control0
            \<lparr>start = 0, end_pos = 1, data = buffer, data_len = length buffer,
              output_buf = output_buffer, output_len = 0\<rparr> main_init of
        Inl (e, w) \<Rightarrow>
          \<lparr>stdout = [Yahdlc_error e], exit_status = 1, get_data_returns = returned w,
            examined_indices = examined w\<rparr>
      | Inr (s, w) \<Rightarrow>
          \<lparr>stdout = [Player_position (x (player (flush_loop 0 s))) (y (player (flush_loop 0 s)))],
            exit_status = 0, get_data_returns = returned w, examined_indices = examined w\<rparr>)"

section \<open>What a run of the scanner decodes and examines\<close>

text \<open>
  Three relations between the histories before and after a part of the run, for the
  lemmas below. \<open>scanned w w' iter\<close>: the indices examined in between are all at or
  beyond \<open>end\<close>, and the first of them is \<open>end\<close> itself when \<open>end\<close> is inside the data.
  \<open>decoded_ok w w'\<close>: every call of the decoder in between returned 0 or more.
  \<open>decoded_err w w' e\<close>: the last call in between returned \<open>e\<close>, every earlier one 0 or
  more.
\<close>

definition scanned :: "'d world \<Rightarrow> 'd world \<Rightarrow> move_iterator_t \<Rightarrow> bool" where
  "scanned w w' iter =
     (\<exists>ks. examined w' = examined w @ ks \<and> (\<forall>k\<in>set ks. end_pos iter \<le> k) \<and>
        (end_pos iter < data_len iter \<longrightarrow> ks \<noteq> [] \<and> hd ks = end_pos iter))"

definition decoded_ok :: "'d world \<Rightarrow> 'd world \<Rightarrow> bool" where
  "decoded_ok w w' = (\<exists>rs. returned w' = returned w @ rs \<and> (\<forall>q\<in>set rs. 0 \<le> q))"

definition decoded_err :: "'d world \<Rightarrow> 'd world \<Rightarrow> int \<Rightarrow> bool" where
  "decoded_err w w' e = (\<exists>rs. returned w' = returned w @ rs @ [e] \<and> (\<forall>q\<in>set rs. 0 \<le> q))"

lemma yahdlc_get_data_world:
  assumes "yahdlc_get_data lib (examine w iter) control src dst len = (r, w')"
  shows "returned w' = returned w @ [ret r]" and "examined w' = examined w @ [end_pos iter]"
  using assms by (auto simp add: yahdlc_get_data_def examine_def Let_def)

lemma examine_world:
  "returned (examine w iter) = returned w" "examined (examine w iter) = examined w @ [end_pos iter]"
  by (simp_all add: examine_def)

lemma scanned_stop: "\<not> end_pos iter < data_len iter \<Longrightarrow> scanned w w iter"
  by (simp add: scanned_def)

lemma scanned_one:
  "examined w' = examined w @ [end_pos iter] \<Longrightarrow> scanned w w' iter"
  by (simp add: scanned_def)

lemma scanned_cons:
  assumes "examined w1 = examined w @ [end_pos iter]" and "scanned w1 w' iter1"
    and "end_pos iter < end_pos iter1"
  shows "scanned w w' iter"
proof -
  from assms(2) obtain ks where "examined w' = examined w1 @ ks"
    and "\<forall>k\<in>set ks. end_pos iter1 \<le> k"
    by (auto simp add: scanned_def)
  with assms(1,3) have "examined w' = examined w @ (end_pos iter # ks)"
    and "\<forall>k\<in>set (end_pos iter # ks). end_pos iter \<le> k"
    by auto
  then show ?thesis
    unfolding scanned_def by (intro exI [of _ "end_pos iter # ks"]) simp
qed

lemma scanned_trans:
  assumes "scanned w w1 iter" and "scanned w1 w2 iter1" and "end_pos iter \<le> end_pos iter1"
  shows "scanned w w2 iter"
proof -
  from assms(1) obtain ks where ks: "examined w1 = examined w @ ks"
    "\<forall>k\<in>set ks. end_pos iter \<le> k" "end_pos iter < data_len iter \<longrightarrow> ks \<noteq> [] \<and> hd ks = end_pos iter"
    by (auto simp add: scanned_def)
  from assms(2) obtain ls where ls: "examined w2 = examined w1 @ ls"
    "\<forall>k\<in>set ls. end_pos iter1 \<le> k"
    by (auto simp add: scanned_def)
  from ks ls assms(3) have "examined w2 = examined w @ (ks @ ls)"
    and "\<forall>k\<in>set (ks @ ls). end_pos iter \<le> k"
    and "end_pos iter < data_len iter \<longrightarrow> ks @ ls \<noteq> [] \<and> hd (ks @ ls) = end_pos iter"
    by auto
  then show ?thesis
    unfolding scanned_def by (intro exI [of _ "ks @ ls"]) simp
qed

lemma decoded_ok_refl: "decoded_ok w w"
  by (simp add: decoded_ok_def)

lemma decoded_ok_same: "returned w1 = returned w \<Longrightarrow> decoded_ok w1 w' \<Longrightarrow> decoded_ok w w'"
  by (simp add: decoded_ok_def)

lemma decoded_err_same: "returned w1 = returned w \<Longrightarrow> decoded_err w1 w' e \<Longrightarrow> decoded_err w w' e"
  by (simp add: decoded_err_def)

lemma decoded_ok_one: "returned w' = returned w @ [q] \<Longrightarrow> 0 \<le> q \<Longrightarrow> decoded_ok w w'"
  by (simp add: decoded_ok_def)

lemma decoded_err_one: "returned w' = returned w @ [e] \<Longrightarrow> decoded_err w w' e"
  unfolding decoded_err_def by (intro exI [of _ "[]"]) simp

lemma decoded_ok_trans:
  assumes "decoded_ok w w1" and "decoded_ok w1 w2"
  shows "decoded_ok w w2"
proof -
  from assms obtain rs qs where "returned w1 = returned w @ rs" "\<forall>q\<in>set rs. 0 \<le> q"
    "returned w2 = returned w1 @ qs" "\<forall>q\<in>set qs. 0 \<le> q"
    by (auto simp add: decoded_ok_def)
  then have "returned w2 = returned w @ (rs @ qs)" and "\<forall>q\<in>set (rs @ qs). 0 \<le> q"
    by auto
  then show ?thesis unfolding decoded_ok_def by blast
qed

lemma decoded_err_trans:
  assumes "decoded_ok w w1" and "decoded_err w1 w2 e"
  shows "decoded_err w w2 e"
proof -
  from assms obtain rs qs where "returned w1 = returned w @ rs" "\<forall>q\<in>set rs. 0 \<le> q"
    "returned w2 = returned w1 @ qs @ [e]" "\<forall>q\<in>set qs. 0 \<le> q"
    by (auto simp add: decoded_ok_def decoded_err_def)
  then have "returned w2 = returned w @ (rs @ qs) @ [e]" and "\<forall>q\<in>set (rs @ qs). 0 \<le> q"
    by auto
  then show ?thesis unfolding decoded_err_def by blast
qed

lemma next_move_history:
  "(next_move lib w control iter = Inl (e, w') \<longrightarrow>
      e < 0 \<and> decoded_err w w' e \<and> scanned w w' iter) \<and>
   (next_move lib w control iter = Inr (run, w', control', iter') \<longrightarrow>
      decoded_ok w w' \<and> scanned w w' iter \<and> (run = 0 \<or> run = 1 \<and> frame control' = 0))"
proof (induction lib w control iter rule: next_move.induct)
  case (1 lib w control iter)
  show ?case
  proof (cases rule: next_move_cases [where iter = iter and lib = lib and w = w
      and control = control])
    case stop
    then show ?thesis
      by (auto simp add: next_move_end decoded_ok_refl scanned_stop)
  next
    case skip
    note ih = "1.IH"(2) [OF skip]
    have ex: "examined (examine w iter) = examined w @ [end_pos iter]"
      and re: "returned (examine w iter) = returned w"
      by (simp_all add: examine_world)
    have lt: "end_pos iter < end_pos (iter\<lparr>end_pos := end_pos iter + 1\<rparr>)" by simp
    from ih show ?thesis
      unfolding next_move_skip [OF skip]
      by (auto intro: scanned_cons [OF ex _ lt] decoded_ok_same [OF re]
          decoded_err_same [OF re])
  next
    case (error r v)
    note g = yahdlc_get_data_world [OF error(3)]
    from error(4) g show ?thesis
      unfolding next_move_error [OF error]
      by (auto intro: scanned_one decoded_err_one)
  next
    case (control r v)
    note g = yahdlc_get_data_world [OF control(3)]
    note ih = "1.IH"(1) [OF control(1,2) control(3) [symmetric] control(4,5)]
    have lt: "end_pos iter < end_pos (advance iter r)" by (simp add: advance_def)
    from control(4) g(1) have ok: "decoded_ok w v"
      by (auto intro: decoded_ok_one)
    from ih show ?thesis
      unfolding next_move_control [OF control]
      by (auto intro: scanned_cons [OF g(2) _ lt] decoded_ok_trans [OF ok]
          decoded_err_trans [OF ok])
  next
    case (data r v)
    note g = yahdlc_get_data_world [OF data(3)]
    from data(4,5) g show ?thesis
      unfolding next_move_data [OF data]
      by (auto intro: scanned_one decoded_ok_one)
  qed
qed

lemma main_loop_exit:
  "next_move lib w control iter = Inl e \<Longrightarrow> main_loop lib w control iter s = Inl e"
  by (subst main_loop.simps) simp

lemma main_loop_stop:
  "next_move lib w control iter = Inr (0, w1, control1, iter1) \<Longrightarrow>
   main_loop lib w control iter s = Inr (s, w1)"
  by (subst main_loop.simps) simp

lemma main_loop_step:
  "next_move lib w control iter = Inr (run, w1, control1, iter1) \<Longrightarrow> run \<noteq> 0 \<Longrightarrow>
   main_loop lib w control iter s =
     main_loop lib w1 control1 (iter1\<lparr>output_len := 0\<rparr>) (main_loop_body s (output_buf iter1 0))"
  by (subst main_loop.simps) simp

lemma main_loop_history:
  "(main_loop lib w control iter s = Inl (e, w') \<longrightarrow>
      e < 0 \<and> decoded_err w w' e \<and> scanned w w' iter) \<and>
   (main_loop lib w control iter s = Inr (s', w') \<longrightarrow>
      decoded_ok w w' \<and> scanned w w' iter \<and> (\<exists>ms. s' = foldl main_loop_body s ms))"
proof (induction lib w control iter s rule: main_loop.induct)
  case (1 lib w control iter s)
  show ?case
  proof (cases "next_move lib w control iter")
    case (Inl a)
    obtain e1 w1 where a: "a = (e1, w1)" by (cases a)
    from next_move_history [of lib w control iter e1 w1] Inl a show ?thesis
      by (auto simp add: main_loop_exit)
  next
    case (Inr b)
    obtain run w1 control1 iter1 where b: "b = (run, w1, control1, iter1)"
      by (cases b)
    with Inr have nm: "next_move lib w control iter = Inr (run, w1, control1, iter1)"
      by simp
    from next_move_history [where lib = lib and w = w and control = control and iter = iter
        and w' = w1 and run = run and control' = control1 and iter' = iter1] nm
    have ok: "decoded_ok w w1" and sc: "scanned w w1 iter" by simp_all
    show ?thesis
    proof (cases "run = 0")
      case True
      with nm have "main_loop lib w control iter s = Inr (s, w1)"
        by (simp add: main_loop_stop)
      with ok sc show ?thesis
        by (auto intro: exI [of _ "[]"])
    next
      case False
      let ?iter = "iter1\<lparr>output_len := 0\<rparr>" and ?s = "main_loop_body s (output_buf iter1 0)"
      note ih = "1.IH" [OF Inr b [symmetric] refl refl False]
      from next_move_progress [OF nm] have le: "end_pos iter \<le> end_pos ?iter" by simp
      have "\<exists>ms. s' = foldl main_loop_body s ms" if "s' = foldl main_loop_body ?s ms" for ms
        using that by (intro exI [of _ "output_buf iter1 0 # ms"]) simp
      with ih show ?thesis
        unfolding main_loop_step [OF nm False]
        by (auto intro: scanned_trans [OF sc _ le] decoded_ok_trans [OF ok]
            decoded_err_trans [OF ok])
    qed
  qed
qed

section \<open>The scanner at a sentinel\<close>

text \<open>The histories a run of the loop of \<open>main\<close> ends with, whichever way it ends.\<close>

definition loop_world :: "(int \<times> 'd world) + (main_state \<times> 'd world) \<Rightarrow> 'd world" where
  "loop_world res = (case res of Inl (e, w) \<Rightarrow> w | Inr (s, w) \<Rightarrow> w)"

lemma main_loop_scanned: "scanned w (loop_world (main_loop lib w control iter s)) iter"
proof (cases "main_loop lib w control iter s")
  case (Inl a)
  obtain e w' where "a = (e, w')" by (cases a)
  with Inl main_loop_history [of lib w control iter s e w'] show ?thesis
    by (simp add: loop_world_def)
next
  case (Inr b)
  obtain s' w' where "b = (s', w')" by (cases b)
  with Inr main_loop_history [where lib = lib and w = w and control = control and iter = iter
      and s = s and s' = s' and w' = w'] show ?thesis
    by (simp add: loop_world_def)
qed

text \<open>
  C7. When the byte at \<open>end\<close> is the sentinel and the decoder returns 0 or more for the
  span from \<open>start\<close> to \<open>end\<close>, the scanner sets \<open>start\<close> to \<open>end + 1\<close> and \<open>end\<close> to
  \<open>end + 2\<close>. If the frame flag is not 0 (a Control frame) nothing is yielded:
  \<open>next_move\<close> goes on scanning from the new cursor, and so does the loop of \<open>main\<close>,
  with its state unchanged. If the flag is 0 (a Data frame) \<open>next_move\<close> returns 1, and
  \<open>main\<close> takes the byte at offset 0 of the output buffer, where the decoder has put the
  payload, as the move. One byte is left unexamined: in the whole rest of the run, after
  the sentinel at \<open>end\<close>, only indices from \<open>end + 2\<close> on are compared with the sentinel,
  and \<open>end + 2\<close> is the first of them when it lies inside the data.
\<close>

theorem scanner_step:
  assumes "end_pos iter < data_len iter"
    and "sint (data iter ! end_pos iter) = FLAG_SEQUENCE lib"
    and "yahdlc_get_data lib (examine w iter) control (frame_span iter) (output_buf iter)
           (output_len iter) = (r, w')"
    and "0 \<le> ret r"
  shows "start (advance iter r) = end_pos iter + 1 \<and>
     end_pos (advance iter r) = end_pos iter + 2 \<and>
     (frame (control_out r) \<noteq> 0 \<longrightarrow>
        next_move lib w control iter = next_move lib w' (control_out r) (advance iter r) \<and>
        main_loop lib w control iter s = main_loop lib w' (control_out r) (advance iter r) s) \<and>
     (frame (control_out r) = 0 \<longrightarrow>
        next_move lib w control iter = Inr (1, w', control_out r, advance iter r) \<and>
        main_loop lib w control iter s =
          main_loop lib w' (control_out r) ((advance iter r)\<lparr>output_len := 0\<rparr>)
            (main_loop_body s (dest r 0))) \<and>
     (\<exists>ks. examined (loop_world (main_loop lib w control iter s)) =
             examined w @ end_pos iter # ks \<and>
           (\<forall>k\<in>set ks. end_pos iter + 2 \<le> k) \<and>
           (end_pos iter + 2 < data_len iter \<longrightarrow> ks \<noteq> [] \<and> hd ks = end_pos iter + 2))"
proof -
  from assms(4) have ok: "\<not> ret r < 0" by simp
  note g = yahdlc_get_data_world [OF assms(3)]
  have ctl: "next_move lib w control iter = next_move lib w' (control_out r) (advance iter r)"
    if "frame (control_out r) \<noteq> 0"
    by (rule next_move_control [OF assms(1-3) ok that])
  have dat: "next_move lib w control iter = Inr (1, w', control_out r, advance iter r)"
    if "frame (control_out r) = 0"
    by (rule next_move_data [OF assms(1-3) ok that])
  have ctl_loop: "main_loop lib w control iter s =
      main_loop lib w' (control_out r) (advance iter r) s"
    if "frame (control_out r) \<noteq> 0"
    by (subst main_loop.simps [of lib w control iter s],
        subst main_loop.simps [of lib w' "control_out r" "advance iter r" s])
       (simp only: ctl [OF that])
  have dat_loop: "main_loop lib w control iter s =
      main_loop lib w' (control_out r) ((advance iter r)\<lparr>output_len := 0\<rparr>)
        (main_loop_body s (dest r 0))"
    if "frame (control_out r) = 0"
  proof -
    have one: "(1 :: int) \<noteq> 0" by simp
    have "output_buf (advance iter r) 0 = dest r 0" by (simp add: advance_def)
    with main_loop_step [OF dat [OF that] one, of s] show ?thesis by simp
  qed
  have rest: "\<exists>iter2 :: move_iterator_t.
      scanned w' (loop_world (main_loop lib w control iter s)) iter2 \<and>
      end_pos iter2 = end_pos iter + 2 \<and> data_len iter2 = data_len iter"
  proof (cases "frame (control_out r) = 0")
    case True
    from main_loop_scanned [of w' lib "control_out r" "(advance iter r)\<lparr>output_len := 0\<rparr>"
        "main_loop_body s (dest r 0)"]
    show ?thesis
      unfolding dat_loop [OF True]
      by (intro exI [of _ "(advance iter r)\<lparr>output_len := 0\<rparr>"]) (simp add: advance_def)
  next
    case False
    from main_loop_scanned [of w' lib "control_out r" "advance iter r" s]
    show ?thesis
      unfolding ctl_loop [OF False]
      by (intro exI [of _ "advance iter r"]) (simp add: advance_def)
  qed
  then obtain ks where "examined (loop_world (main_loop lib w control iter s)) =
      examined w' @ ks" and "\<forall>k\<in>set ks. end_pos iter + 2 \<le> k"
    and "end_pos iter + 2 < data_len iter \<longrightarrow> ks \<noteq> [] \<and> hd ks = end_pos iter + 2"
    by (auto simp add: scanned_def)
  with g(2) have "\<exists>ks. examined (loop_world (main_loop lib w control iter s)) =
             examined w @ end_pos iter # ks \<and>
           (\<forall>k\<in>set ks. end_pos iter + 2 \<le> k) \<and>
           (end_pos iter + 2 < data_len iter \<longrightarrow> ks \<noteq> [] \<and> hd ks = end_pos iter + 2)"
    by (intro exI [of _ ks]) simp
  with ctl dat ctl_loop dat_loop show ?thesis
    by (simp add: advance_def)
qed

text \<open>
  Three decoders to run the scanner on: one that rejects every span with \<open>-5\<close>, one that
  takes every span for a Data frame whose payload is the byte behind the opening
  sentinel, and one that takes every span for a Control frame.
\<close>

definition lib_err :: "unit yahdlc" where
  "lib_err = \<lparr>FLAG_SEQUENCE = 126,
     get_data = (\<lambda>d c src dst len.
       \<lparr>ret = - 5, control_out = c, dest = dst, dest_len = 0, state_out = d\<rparr>)\<rparr>"

definition lib_ok :: "unit yahdlc" where
  "lib_ok = \<lparr>FLAG_SEQUENCE = 126,
     get_data = (\<lambda>d c src dst len.
       \<lparr>ret = 0, control_out = \<lparr>frame = 0\<rparr>, dest = (\<lambda>k. src ! 1), dest_len = 1, state_out = d\<rparr>)\<rparr>"

lemma next_move_flag:
  "end_pos iter < data_len iter \<Longrightarrow> sint (data iter ! end_pos iter) = FLAG_SEQUENCE lib \<Longrightarrow>
   next_move lib w control iter =
     (case yahdlc_get_data lib (examine w iter) control (frame_span iter) (output_buf iter)
             (output_len iter) of
        (r, w') \<Rightarrow>
          if ret r < 0 then Inl (ret r, w')
          else if frame (control_out r) \<noteq> 0
            then next_move lib w' (control_out r) (advance iter r)
            else Inr (1, w', control_out r, advance iter r))"
  by (subst next_move.simps) simp


definition lib_ctl :: "unit yahdlc" where
  "lib_ctl = \<lparr>FLAG_SEQUENCE = 126,
     get_data = (\<lambda>d c src dst len.
       \<lparr>ret = 0, control_out = \<lparr>frame = 1\<rparr>, dest = dst, dest_len = 0, state_out = d\<rparr>)\<rparr>"

lemma next_move_lib_err: "next_move lib_err \<lparr>yahdlc_state = (), returned = [], examined = []\<rparr> \<lparr>frame = 0\<rparr>
      \<lparr>start = 0, end_pos = 1, data = [126, 3, 126], data_len = length [126, 3, 126 :: char_t],
        output_buf = (\<lambda>k. 0), output_len = 0\<rparr> =
    Inl (- 5, \<lparr>yahdlc_state = (), returned = [- 5], examined = [1, 2]\<rparr>)"
  by (simp add: next_move_end next_move_skip next_move_flag yahdlc_get_data_def examine_def lib_err_def)

lemma main_lib_err:
  "main lib_err () \<lparr>frame = 0\<rparr> (\<lambda>k. 0) [126, 3, 126] =
     \<lparr>stdout = [Yahdlc_error (- 5)], exit_status = 1, get_data_returns = [- 5],
       examined_indices = [1, 2]\<rparr>"
proof -
  from main_loop_exit [OF next_move_lib_err, of main_init] show ?thesis
    by (simp add: main_def)
qed

lemma next_move_lib_ok_1: "next_move lib_ok \<lparr>yahdlc_state = (), returned = [], examined = []\<rparr> \<lparr>frame = 0\<rparr>
      \<lparr>start = 0, end_pos = 1, data = [126, 3, 126], data_len = length [126, 3, 126 :: char_t],
        output_buf = (\<lambda>k. 0), output_len = 0\<rparr> =
    Inr (1, \<lparr>yahdlc_state = (), returned = [0], examined = [1, 2]\<rparr>, \<lparr>frame = 0\<rparr>,
      \<lparr>start = 3, end_pos = 4, data = [126, 3, 126], data_len = 3,
        output_buf = (\<lambda>k. 3), output_len = 1\<rparr>)"
  by (simp add: next_move_end next_move_skip next_move_flag yahdlc_get_data_def examine_def
      lib_ok_def advance_def frame_span_def)

lemma next_move_lib_ok_2: "next_move lib_ok \<lparr>yahdlc_state = (), returned = [0], examined = [1, 2]\<rparr> \<lparr>frame = 0\<rparr>
      \<lparr>start = 3, end_pos = 4, data = [126, 3, 126], data_len = 3,
        output_buf = (\<lambda>k. 3), output_len = 0\<rparr> =
    Inr (0, \<lparr>yahdlc_state = (), returned = [0], examined = [1, 2]\<rparr>, \<lparr>frame = 0\<rparr>,
      \<lparr>start = 3, end_pos = 4, data = [126, 3, 126], data_len = 3,
        output_buf = (\<lambda>k. 3), output_len = 0\<rparr>)"
  by (simp add: next_move_end)

lemma main_loop_lib_ok: "main_loop lib_ok \<lparr>yahdlc_state = (), returned = [], examined = []\<rparr> \<lparr>frame = 0\<rparr>
      \<lparr>start = 0, end_pos = 1, data = [126, 3, 126], data_len = length [126, 3, 126 :: char_t],
        output_buf = (\<lambda>k. 0), output_len = 0\<rparr> main_init =
    Inr (main_loop_body main_init 3, \<lparr>yahdlc_state = (), returned = [0], examined = [1, 2]\<rparr>)"
proof -
  let ?it1 = "\<lparr>start = 3, end_pos = 4, data = [126, 3, 126 :: char_t], data_len = 3,
        output_buf = (\<lambda>k. 3 :: char_t), output_len = 1\<rparr>"
  have one: "(1 :: int) \<noteq> 0" by simp
  have r1: "?it1\<lparr>output_len := 0\<rparr> = \<lparr>start = 3, end_pos = 4, data = [126, 3, 126], data_len = 3,
        output_buf = (\<lambda>k. 3), output_len = 0\<rparr>"
    by simp
  have r2: "output_buf ?it1 0 = 3" by simp
  show ?thesis
    by (simp only: main_loop_step [OF next_move_lib_ok_1 one] r1 r2 main_loop_stop [OF next_move_lib_ok_2])
qed

lemma main_lib_ok:
  "main lib_ok () \<lparr>frame = 0\<rparr> (\<lambda>k. 0) [126, 3, 126] =
     \<lparr>stdout = [Player_position 1 4], exit_status = 0, get_data_returns = [0],
       examined_indices = [1, 2]\<rparr>"
proof -
  have p: "player (flush_loop 0 (main_loop_body main_init 3)) = \<lparr>x = 1, y = 4\<rparr>"
    by (simp add: run_defs)
  show ?thesis
    by (simp only: main_def main_loop_lib_ok sum.case prod.case p) simp
qed

theorem scanner_step_witness:
  "next_move lib_ok \<lparr>yahdlc_state = (), returned = [], examined = []\<rparr> \<lparr>frame = 0\<rparr>
      \<lparr>start = 0, end_pos = 2, data = [126, 3, 126], data_len = 3,
        output_buf = (\<lambda>k. 0), output_len = 0\<rparr> =
    Inr (1, \<lparr>yahdlc_state = (), returned = [0], examined = [2]\<rparr>, \<lparr>frame = 0\<rparr>,
      \<lparr>start = 3, end_pos = 4, data = [126, 3, 126], data_len = 3,
        output_buf = (\<lambda>k. 3), output_len = 1\<rparr>) \<and>
   next_move lib_ctl \<lparr>yahdlc_state = (), returned = [], examined = []\<rparr> \<lparr>frame = 0\<rparr>
      \<lparr>start = 0, end_pos = 2, data = [126, 3, 126], data_len = 3,
        output_buf = (\<lambda>k. 0), output_len = 0\<rparr> =
    Inr (0, \<lparr>yahdlc_state = (), returned = [0], examined = [2]\<rparr>, \<lparr>frame = 1\<rparr>,
      \<lparr>start = 3, end_pos = 4, data = [126, 3, 126], data_len = 3,
        output_buf = (\<lambda>k. 0), output_len = 0\<rparr>)"
proof -
  let ?w = "\<lparr>yahdlc_state = (), returned = [], examined = []\<rparr>"
  let ?w' = "\<lparr>yahdlc_state = (), returned = [0 :: int], examined = [2 :: nat]\<rparr>"
  let ?c = "\<lparr>frame = 0\<rparr>"
  let ?iter = "\<lparr>start = 0, end_pos = 2, data = [126, 3, 126 :: char_t], data_len = 3,
        output_buf = (\<lambda>k. 0 :: char_t), output_len = 0\<rparr>"
  let ?r = "\<lparr>ret = 0, control_out = \<lparr>frame = 0\<rparr>, dest = (\<lambda>k. 3 :: char_t), dest_len = 1,
        state_out = ()\<rparr>"
  let ?q = "\<lparr>ret = 0, control_out = \<lparr>frame = 1\<rparr>, dest = (\<lambda>k. 0 :: char_t), dest_len = 0,
        state_out = ()\<rparr>"
  have h1: "end_pos ?iter < data_len ?iter" by simp
  have h2: "sint (data ?iter ! end_pos ?iter) = FLAG_SEQUENCE lib_ok"
    by (simp add: lib_ok_def)
  have h3: "yahdlc_get_data lib_ok (examine ?w ?iter) ?c (frame_span ?iter) (output_buf ?iter)
      (output_len ?iter) = (?r, ?w')"
    by (simp add: yahdlc_get_data_def examine_def frame_span_def lib_ok_def)
  have h4: "0 \<le> ret ?r" by simp
  have k2: "sint (data ?iter ! end_pos ?iter) = FLAG_SEQUENCE lib_ctl"
    by (simp add: lib_ctl_def)
  have k3: "yahdlc_get_data lib_ctl (examine ?w ?iter) ?c (frame_span ?iter) (output_buf ?iter)
      (output_len ?iter) = (?q, ?w')"
    by (simp add: yahdlc_get_data_def examine_def frame_span_def lib_ctl_def)
  have k4: "0 \<le> ret ?q" by simp
  from scanner_step [OF h1 h2 h3 h4, of main_init]
  have a: "next_move lib_ok ?w ?c ?iter = Inr (1, ?w', control_out ?r, advance ?iter ?r)"
    by simp
  from scanner_step [OF h1 k2 k3 k4, of main_init]
  have "next_move lib_ctl ?w ?c ?iter = next_move lib_ctl ?w' (control_out ?q) (advance ?iter ?q)"
    by simp
  also have "\<dots> = Inr (0, ?w', control_out ?q, advance ?iter ?q)"
    by (rule next_move_end) (simp add: advance_def)
  finally have b: "next_move lib_ctl ?w ?c ?iter = Inr (0, ?w', control_out ?q, advance ?iter ?q)" .
  from a b show ?thesis
    by (simp add: advance_def)
qed

section \<open>Decode errors\<close>

lemma main_cases:
  obtains (exit) e w where
      "main_loop lib \<lparr>yahdlc_state = d0, returned = [], examined = []\<rparr> control0
         \<lparr>start = 0, end_pos = 1, data = buffer, data_len = length buffer,
           output_buf = output_buffer, output_len = 0\<rparr> main_init = Inl (e, w)"
      "main lib d0 control0 output_buffer buffer =
         \<lparr>stdout = [Yahdlc_error e], exit_status = 1, get_data_returns = returned w,
           examined_indices = examined w\<rparr>"
  | (report) s w where
      "main_loop lib \<lparr>yahdlc_state = d0, returned = [], examined = []\<rparr> control0
         \<lparr>start = 0, end_pos = 1, data = buffer, data_len = length buffer,
           output_buf = output_buffer, output_len = 0\<rparr> main_init = Inr (s, w)"
      "main lib d0 control0 output_buffer buffer =
         \<lparr>stdout = [Player_position (x (player (flush_loop 0 s))) (y (player (flush_loop 0 s)))],
           exit_status = 0, get_data_returns = returned w, examined_indices = examined w\<rparr>"
proof (cases "main_loop lib \<lparr>yahdlc_state = d0, returned = [], examined = []\<rparr> control0
         \<lparr>start = 0, end_pos = 1, data = buffer, data_len = length buffer,
           output_buf = output_buffer, output_len = 0\<rparr> main_init")
  case (Inl a)
  then show ?thesis
    by (cases a) (auto simp add: main_def intro: exit simp del: flush_loop.simps)
next
  case (Inr b)
  then show ?thesis
    by (cases b) (auto simp add: main_def intro: report simp del: flush_loop.simps)
qed

text \<open>
  C6. If any call of the decoder in a run returns a negative value, that call is the
  last one the run makes (every call before it returned 0 or more, and none follows, so
  the failed span is neither skipped nor tried again): the process prints the error
  and exits with status 1, and the line with the player's position is never printed. A
  run in which no call returns a negative value exits with status 0 after printing the
  position that the decoded moves lead to.
\<close>

theorem decode_error_is_fatal:
  fixes lib :: "'d yahdlc" and d0 control0 output_buffer buffer
  defines "res \<equiv> main lib d0 control0 output_buffer buffer"
  shows
    "((\<exists>q\<in>set (get_data_returns res). q < 0) \<longrightarrow>
        get_data_returns res \<noteq> [] \<and> last (get_data_returns res) < 0 \<and>
        (\<forall>q\<in>set (butlast (get_data_returns res)). 0 \<le> q) \<and>
        stdout res = [Yahdlc_error (last (get_data_returns res))] \<and> exit_status res = 1) \<and>
     ((\<forall>q\<in>set (get_data_returns res). 0 \<le> q) \<longrightarrow>
        exit_status res = 0 \<and>
        (\<exists>ms. stdout res = [Player_position (x (final_position ms)) (y (final_position ms))]))"
proof (cases rule: main_cases [of lib d0 control0 buffer output_buffer])
  case (exit e w)
  from main_loop_history [THEN conjunct1, rule_format, OF exit(1)]
  obtain rs where "e < 0" and "returned w = rs @ [e]" and "\<forall>q\<in>set rs. 0 \<le> q"
    by (auto simp add: decoded_err_def)
  then show ?thesis
    unfolding res_def exit(2) by auto
next
  case (report s w)
  from main_loop_history [THEN conjunct2, rule_format, OF report(1)]
  obtain ms where ok: "\<forall>q\<in>set (returned w). 0 \<le> q" and s: "s = foldl main_loop_body main_init ms"
    by (auto simp add: decoded_ok_def)
  from s have "player (flush_loop 0 s) = final_position ms"
    by (simp add: final_position_def run_moves_def del: flush_loop.simps)
  with ok show ?thesis
    unfolding res_def report(2) by (auto simp del: flush_loop.simps)
qed

theorem decode_error_is_fatal_witness:
  "stdout (main lib_err () \<lparr>frame = 0\<rparr> (\<lambda>k. 0) [126, 3, 126]) = [Yahdlc_error (- 5)] \<and>
   exit_status (main lib_err () \<lparr>frame = 0\<rparr> (\<lambda>k. 0) [126, 3, 126]) = 1 \<and>
   get_data_returns (main lib_err () \<lparr>frame = 0\<rparr> (\<lambda>k. 0) [126, 3, 126]) = [- 5] \<and>
   stdout (main lib_ok () \<lparr>frame = 0\<rparr> (\<lambda>k. 0) [126, 3, 126]) = [Player_position 1 4] \<and>
   exit_status (main lib_ok () \<lparr>frame = 0\<rparr> (\<lambda>k. 0) [126, 3, 126]) = 0 \<and>
   get_data_returns (main lib_ok () \<lparr>frame = 0\<rparr> (\<lambda>k. 0) [126, 3, 126]) = [0]"
  using decode_error_is_fatal [where lib = lib_err and ?d0.0 = "()" and ?control0.0 = "\<lparr>frame = 0\<rparr>"
      and output_buffer = "\<lambda>k. 0" and buffer = "[126, 3, 126]"]
    decode_error_is_fatal [where lib = lib_ok and ?d0.0 = "()" and ?control0.0 = "\<lparr>frame = 0\<rparr>"
      and output_buffer = "\<lambda>k. 0" and buffer = "[126, 3, 126]"]
  by (simp add: main_lib_err main_lib_ok)

end
